theory Spec2Isabelle
  imports Complex_Main "HOL-Library.Word"
begin

unbundle bit_operations_syntax

section \<open>Python values\<close>

text \<open>
  A Python \<open>str\<close> is a sequence of code points. It is modelled as a \<open>string\<close> whose
  characters are the code points U+0000 to U+00FF, so \<open>length\<close> counts code points, as
  \<open>len\<close> does, and \<open>ord\<close> and \<open>chr\<close> convert between a character and its code point.
  A \<open>bytes\<close> value is a list of 8-bit characters as well. Exceptions are values of
  \<open>error\<close>, returned on the left of a sum.
\<close>

datatype error =
    ValueError | IndexError | TypeError | KeyError | AttributeError | ZeroDivisionError
  | UnicodeDecodeError

type_synonym bytes = "char list"

definition ord :: "char \<Rightarrow> nat" where
  "ord c = of_char c"

definition chr :: "nat \<Rightarrow> char" where
  "chr n = char_of n"

text \<open>A character lies in a range of code points, which are compared as integers.\<close>

definition in_range :: "int \<Rightarrow> int \<Rightarrow> char \<Rightarrow> bool" where
  "in_range lo hi c = (lo \<le> of_char c \<and> of_char c \<le> hi)"

text \<open>The class \<open>[0-9]\<close>; it is also \<open>\d\<close> on this range of code points.\<close>

definition is_ascii_digit :: "char \<Rightarrow> bool" where
  "is_ascii_digit c = in_range 0x30 0x39 c"

text \<open>\<open>str.isdigit\<close>: the decimal digits and the superscripts U+00B2, U+00B3, U+00B9.\<close>

definition isdigit :: "char \<Rightarrow> bool" where
  "isdigit c = (in_range 0x30 0x39 c \<or> in_range 0xB2 0xB3 c \<or> c = CHR 0xB9)"

text \<open>\<open>str.isspace\<close>, the separators of \<open>str.split()\<close>, and \<open>\s\<close>.\<close>

definition is_space :: "char \<Rightarrow> bool" where
  "is_space c = (in_range 0x09 0x0D c \<or> in_range 0x1C 0x20 c \<or> c = CHR 0x85 \<or> c = CHR 0xA0)"

text \<open>\<open>\w\<close>, which decides the word boundary \<open>\b\<close>: alphanumeric characters and the underscore.\<close>

definition is_word :: "char \<Rightarrow> bool" where
  "is_word c = (in_range 0x30 0x39 c \<or> in_range 0x41 0x5A c \<or> c = CHR 0x5F \<or> in_range 0x61 0x7A c
     \<or> c = CHR 0xAA \<or> in_range 0xB2 0xB3 c \<or> c = CHR 0xB5 \<or> in_range 0xB9 0xBA c
     \<or> in_range 0xBC 0xBE c \<or> in_range 0xC0 0xD6 c \<or> in_range 0xD8 0xF6 c \<or> in_range 0xF8 0xFF c)"

text \<open>\<open>int(c)\<close> for a one-character string: only a decimal digit converts.\<close>

definition int_of_char :: "char \<Rightarrow> error + nat" where
  "int_of_char c = (if is_ascii_digit c then Inr (ord c - 48) else Inl ValueError)"

text \<open>\<open>xs[i]\<close> for a non-negative index.\<close>

definition index :: "'a list \<Rightarrow> nat \<Rightarrow> error + 'a" where
  "index xs i = (if i < length xs then Inr (xs ! i) else Inl IndexError)"

text \<open>\<open>str(n)\<close> for an integer.\<close>

function str_nat :: "nat \<Rightarrow> string" where
  "str_nat n = (if n < 10 then [chr (48 + n)] else str_nat (n div 10) @ [chr (48 + n mod 10)])"
  by pat_completeness auto
termination
  by (relation "measure id") auto

declare str_nat.simps [simp del]

definition str_int :: "int \<Rightarrow> string" where
  "str_int i = (if i < 0 then CHR ''-'' # str_nat (nat (- i)) else str_nat (nat i))"

text \<open>\<open>s * n\<close>, the repetition of a string.\<close>

definition repeat :: "string \<Rightarrow> nat \<Rightarrow> string" where
  "repeat s n = concat (replicate n s)"

text \<open>\<open>s[-n:]\<close>, the last \<open>n\<close> characters (all of \<open>s\<close> when it is shorter).\<close>

definition last_n :: "nat \<Rightarrow> string \<Rightarrow> string" where
  "last_n n s = drop (length s - n) s"

text \<open>\<open>str.upper\<close> on ASCII letters, the only ones in the labels it is applied to.\<close>

definition upper :: "string \<Rightarrow> string" where
  "upper s = map (\<lambda>c. if in_range 0x61 0x7A c then chr (ord c - 32) else c) s"

text \<open>
  A dictionary keeps its keys in insertion order: an association list with distinct keys.
  \<open>dict_set\<close> is \<open>d[k] = v\<close>.
\<close>

definition dict_set :: "('k \<times> 'v) list \<Rightarrow> 'k \<Rightarrow> 'v \<Rightarrow> ('k \<times> 'v) list" where
  "dict_set d k v =
     (if map_of d k = None then d @ [(k, v)]
      else map (\<lambda>(k', v'). if k' = k then (k', v) else (k', v')) d)"

text \<open>\<open>str.split()\<close>: the maximal runs of characters that are not whitespace.\<close>

fun split_ws :: "string \<Rightarrow> string \<Rightarrow> string list" where
  "split_ws cur [] = (if cur = [] then [] else [cur])"
| "split_ws cur (c # cs) =
     (if is_space c then (if cur = [] then split_ws [] cs else cur # split_ws [] cs)
      else split_ws (cur @ [c]) cs)"

definition split :: "string \<Rightarrow> string list" where
  "split s = split_ws [] s"

text \<open>\<open>sep.join(parts)\<close>.\<close>

fun join :: "string \<Rightarrow> string list \<Rightarrow> string" where
  "join sep [] = []"
| "join sep [p] = p"
| "join sep (p # q # ps) = p @ sep @ join sep (q # ps)"

text \<open>\<open>s.rsplit(sep, 1)\<close> for a one-character separator that occurs in \<open>s\<close>: the text before
  the last occurrence and the text after it.\<close>

definition rsplit1 :: "char \<Rightarrow> string \<Rightarrow> string \<times> string" where
  "rsplit1 sep s =
     (let after = rev (takeWhile (\<lambda>c. c \<noteq> sep) (rev s))
      in (take (length s - length after - 1) s, after))"

text \<open>\<open>f"{n:04d}"\<close> and \<open>f"{n:07d}"\<close>: decimal, padded with zeros on the left.\<close>

definition zero_pad :: "nat \<Rightarrow> nat \<Rightarrow> string" where
  "zero_pad width n = replicate (width - length (str_nat n)) CHR ''0'' @ str_nat n"

section \<open>Text encoding, base64 and the keyed transform\<close>

text \<open>\<open>str.encode()\<close>: UTF-8, one byte below U+0080 and two bytes from there to U+00FF.\<close>

definition utf8_char :: "char \<Rightarrow> bytes" where
  "utf8_char c = (if ord c < 128 then [c] else [chr (192 + ord c div 64), chr (128 + ord c mod 64)])"

definition utf8_encode :: "string \<Rightarrow> bytes" where
  "utf8_encode s = concat (map utf8_char s)"

text \<open>
  \<open>bytes.decode()\<close>. Two-byte sequences are those of U+0080 to U+00FF (lead byte
  \<open>0xC2\<close> or \<open>0xC3\<close>); all other input is rejected here, longer sequences because their
  code points lie outside the modelled range.
\<close>

fun utf8_decode :: "bytes \<Rightarrow> error + string" where
  "utf8_decode [] = Inr []"
| "utf8_decode (b # bs) =
     (if ord b < 128 then
        (case utf8_decode bs of Inl e \<Rightarrow> Inl e | Inr s \<Rightarrow> Inr (b # s))
      else if ord b = 194 \<or> ord b = 195 then
        (case bs of
           [] \<Rightarrow> Inl UnicodeDecodeError
         | b2 # bs' \<Rightarrow>
             if in_range 128 191 b2 then
               (case utf8_decode bs' of
                  Inl e \<Rightarrow> Inl e
                | Inr s \<Rightarrow> Inr (chr ((ord b - 192) * 64 + (ord b2 - 128)) # s))
             else Inl UnicodeDecodeError)
      else Inl UnicodeDecodeError)"

text \<open>Base64 with the standard alphabet and padding (RFC 4648), as \<open>base64.b64encode\<close>
  and \<open>base64.b64decode\<close> compute it.\<close>

definition b64_char :: "nat \<Rightarrow> char" where
  "b64_char i =
     (if i < 26 then chr (65 + i)
      else if i < 52 then chr (97 + (i - 26))
      else if i < 62 then chr (48 + (i - 52))
      else if i = 62 then CHR ''+'' else CHR ''/'')"

definition b64_index :: "char \<Rightarrow> error + nat" where
  "b64_index c =
     (if in_range 65 90 c then Inr (ord c - 65)
      else if in_range 97 122 c then Inr (ord c - 97 + 26)
      else if in_range 48 57 c then Inr (ord c - 48 + 52)
      else if c = CHR ''+'' then Inr 62
      else if c = CHR ''/'' then Inr 63
      else Inl ValueError)"

text \<open>Three bytes are four groups of six bits.\<close>

definition sextet1 :: "nat \<Rightarrow> nat" where
  "sextet1 a = a div 4"

definition sextet2 :: "nat \<Rightarrow> nat \<Rightarrow> nat" where
  "sextet2 a b = a mod 4 * 16 + b div 16"

definition sextet3 :: "nat \<Rightarrow> nat \<Rightarrow> nat" where
  "sextet3 b c = b mod 16 * 4 + c div 64"

definition sextet4 :: "nat \<Rightarrow> nat" where
  "sextet4 c = c mod 64"

definition octet1 :: "nat \<Rightarrow> nat \<Rightarrow> nat" where
  "octet1 s1 s2 = s1 * 4 + s2 div 16"

definition octet2 :: "nat \<Rightarrow> nat \<Rightarrow> nat" where
  "octet2 s2 s3 = s2 mod 16 * 16 + s3 div 4"

definition octet3 :: "nat \<Rightarrow> nat \<Rightarrow> nat" where
  "octet3 s3 s4 = s3 mod 4 * 64 + s4"

fun b64encode :: "bytes \<Rightarrow> string" where
  "b64encode [] = []"
| "b64encode [a] =
     [b64_char (sextet1 (ord a)), b64_char (sextet2 (ord a) 0), CHR ''='', CHR ''='']"
| "b64encode [a, b] =
     [b64_char (sextet1 (ord a)), b64_char (sextet2 (ord a) (ord b)),
      b64_char (sextet3 (ord b) 0), CHR ''='']"
| "b64encode (a # b # c # bs) =
     [b64_char (sextet1 (ord a)), b64_char (sextet2 (ord a) (ord b)),
      b64_char (sextet3 (ord b) (ord c)), b64_char (sextet4 (ord c))] @ b64encode bs"

fun b64decode :: "string \<Rightarrow> error + bytes" where
  "b64decode [] = Inr []"
| "b64decode (c1 # c2 # c3 # c4 # cs) =
     (case (b64_index c1, b64_index c2) of
        (Inr s1, Inr s2) \<Rightarrow>
          (if c3 = CHR ''='' \<and> c4 = CHR ''='' \<and> cs = [] then Inr [chr (octet1 s1 s2)]
           else (case b64_index c3 of
                   Inl e \<Rightarrow> Inl e
                 | Inr s3 \<Rightarrow>
                     (if c4 = CHR ''='' \<and> cs = [] then
                        Inr [chr (octet1 s1 s2), chr (octet2 s2 s3)]
                      else (case b64_index c4 of
                              Inl e \<Rightarrow> Inl e
                            | Inr s4 \<Rightarrow>
                                (case b64decode cs of
                                   Inl e \<Rightarrow> Inl e
                                 | Inr bs \<Rightarrow>
                                     Inr (chr (octet1 s1 s2) # chr (octet2 s2 s3)
                                          # chr (octet3 s3 s4) # bs))))))
      | _ \<Rightarrow> Inl ValueError)"
| "b64decode _ = Inl ValueError"

definition XOR_KEY :: string where
  "XOR_KEY = ''YourSecretKeyForPIIDetection''"

text \<open>
  \<open>encrypt_decrypt\<close>: the key is repeated \<open>len(text) // len(key) + 1\<close> times, which
  divides by zero for an empty key, and \<open>zip\<close> pairs each character with one of the key.
\<close>

definition encrypt_decrypt :: "string \<Rightarrow> string \<Rightarrow> error + string" where
  "encrypt_decrypt text key =
     (if length key = 0 then Inl ZeroDivisionError
      else Inr (map (\<lambda>(c, k). chr (ord c XOR ord k))
                    (zip text (repeat key (length text div length key + 1)))))"

section \<open>The pseudonymizer\<close>

record pseudonymizer =
  mapping :: "(string \<times> string) list"
  counter :: int

definition EmailPseudonymizer :: pseudonymizer where
  "EmailPseudonymizer = \<lparr>mapping = [], counter = 1\<rparr>"

definition pseudonymize :: "pseudonymizer \<Rightarrow> string \<Rightarrow> error + (string \<times> pseudonymizer)" where
  "pseudonymize self local_part =
     (let self' = (if map_of (mapping self) local_part = None
                   then self\<lparr>mapping := dict_set (mapping self) local_part (''user'' @ str_int (counter self)),
                             counter := counter self + 1\<rparr>
                   else self)
      in case map_of (mapping self') local_part of
           None \<Rightarrow> Inl KeyError
         | Some alias \<Rightarrow> Inr (alias, self'))"

text \<open>A sequence of calls on one instance, with the aliases in call order.\<close>

fun pseudonymize_calls :: "pseudonymizer \<Rightarrow> string list \<Rightarrow> error + (string list \<times> pseudonymizer)" where
  "pseudonymize_calls self [] = Inr ([], self)"
| "pseudonymize_calls self (k # ks) =
     (case pseudonymize self k of
        Inl e \<Rightarrow> Inl e
      | Inr (a, self') \<Rightarrow>
          (case pseudonymize_calls self' ks of
             Inl e \<Rightarrow> Inl e
           | Inr (as, self'') \<Rightarrow> Inr (a # as, self'')))"

section \<open>Checksum validators\<close>

definition d_table :: "nat list list" where
  "d_table = [[0,1,2,3,4,5,6,7,8,9],[1,2,3,4,0,6,7,8,9,5],[2,3,4,0,1,7,8,9,5,6],
     [3,4,0,1,2,8,9,5,6,7],[4,0,1,2,3,9,5,6,7,8],[5,9,8,7,6,0,4,3,2,1],[6,5,9,8,7,1,0,4,3,2],
     [7,6,5,9,8,2,1,0,4,3],[8,7,6,5,9,3,2,1,0,4],[9,8,7,6,5,4,3,2,1,0]]"

definition p_table :: "nat list list" where
  "p_table = [[0,1,2,3,4,5,6,7,8,9],[1,5,7,6,2,8,3,0,9,4],[5,8,0,3,7,9,6,1,4,2],
     [8,9,1,6,0,4,3,5,2,7],[9,4,5,3,1,2,6,8,7,0],[4,2,8,6,5,7,9,3,0,1],[2,7,9,3,8,0,4,6,1,5],
     [7,0,4,6,9,1,3,2,5,8]]"

text \<open>One round of the loop: \<open>c = d_table[c][p_table[i % 8][int(item)]]\<close>.\<close>

definition verhoeff_step :: "nat \<Rightarrow> nat \<Rightarrow> char \<Rightarrow> error + nat" where
  "verhoeff_step c i item =
     (case index d_table c of
        Inl e \<Rightarrow> Inl e
      | Inr d_row \<Rightarrow>
          (case index p_table (i mod 8) of
             Inl e \<Rightarrow> Inl e
           | Inr p_row \<Rightarrow>
               (case int_of_char item of
                  Inl e \<Rightarrow> Inl e
                | Inr v \<Rightarrow>
                    (case index p_row v of
                       Inl e \<Rightarrow> Inl e
                     | Inr j \<Rightarrow> index d_row j))))"

text \<open>The loop over \<open>enumerate(reversed(number))\<close>, from index \<open>i\<close> on.\<close>

fun verhoeff_loop :: "nat \<Rightarrow> nat \<Rightarrow> string \<Rightarrow> error + nat" where
  "verhoeff_loop c i [] = Inr c"
| "verhoeff_loop c i (item # items) =
     (case verhoeff_step c i item of
        Inl e \<Rightarrow> Inl e
      | Inr c' \<Rightarrow> verhoeff_loop c' (Suc i) items)"

text \<open>The body of the \<open>try\<close> block; \<open>re.sub(r"[^0-9]", "", number)\<close> keeps the characters
  \<open>0\<close> to \<open>9\<close>.\<close>

definition aadhaar_verhoeff_try :: "string \<Rightarrow> error + bool" where
  "aadhaar_verhoeff_try number =
     (case verhoeff_loop 0 0 (rev (filter is_ascii_digit number)) of
        Inl e \<Rightarrow> Inl e
      | Inr c \<Rightarrow> Inr (c = 0))"

text \<open>\<open>except (ValueError, IndexError): return False\<close>; the body raises nothing else.\<close>

definition aadhaar_verhoeff :: "string \<Rightarrow> bool" where
  "aadhaar_verhoeff number =
     (case aadhaar_verhoeff_try number of Inl e \<Rightarrow> False | Inr b \<Rightarrow> b)"

text \<open>\<open>[int(c) for c in number if c.isdigit()]\<close>: a character that \<open>isdigit\<close> accepts and
  \<open>int\<close> rejects raises.\<close>

fun ints_of :: "string \<Rightarrow> error + nat list" where
  "ints_of [] = Inr []"
| "ints_of (c # cs) =
     (case int_of_char c of
        Inl e \<Rightarrow> Inl e
      | Inr d \<Rightarrow> (case ints_of cs of Inl e \<Rightarrow> Inl e | Inr ds \<Rightarrow> Inr (d # ds)))"

text \<open>The loop over \<open>enumerate(digits)\<close>, from index \<open>i\<close> on, with the running total.\<close>

fun luhn_loop :: "nat \<Rightarrow> nat \<Rightarrow> nat list \<Rightarrow> nat \<Rightarrow> nat" where
  "luhn_loop parity i [] tot = tot"
| "luhn_loop parity i (d # ds) tot =
     (let d1 = (if i mod 2 = parity then d * 2 else d);
          d2 = (if d1 > 9 then d1 - 9 else d1)
      in luhn_loop parity (Suc i) ds (tot + d2))"

definition luhn_checksum_ok :: "string \<Rightarrow> error + bool" where
  "luhn_checksum_ok number =
     (case ints_of (filter isdigit number) of
        Inl e \<Rightarrow> Inl e
      | Inr digits \<Rightarrow>
          if \<not> (13 \<le> length digits \<and> length digits \<le> 19) then Inr False
          else Inr (luhn_loop (length digits mod 2) 0 digits 0 mod 10 = 0))"

section \<open>Regular expressions\<close>

text \<open>
  The patterns of the repository use literals, character classes, \<open>\d\<close>, \<open>\s\<close>, the word
  boundary \<open>\b\<close>, sequence, alternation, greedy repetition and groups. \<open>rx\<close> is the
  syntax of these; \<open>Grp n\<close> is the \<open>n\<close>-th capturing group, and a non-capturing group
  is its body. \<open>matches\<close> is the backtracking matcher of \<open>re\<close>: the ways a pattern
  can match from a state, in the order in which the matcher tries them.
\<close>

datatype citem = Ch char | Range char char | ClsDigit | ClsSpace | ClsWord

fun in_item :: "char \<Rightarrow> citem \<Rightarrow> bool" where
  "in_item c (Ch x) = (c = x)"
| "in_item c (Range a b) = in_range (of_char a) (of_char b) c"
| "in_item c ClsDigit = is_ascii_digit c"
| "in_item c ClsSpace = is_space c"
| "in_item c ClsWord = is_word c"

datatype rx =
    Eps
  | Lit char
  | In "citem list"
  | NotIn "citem list"
  | WordB
  | Seq rx rx
  | Alt rx rx
  | Rep nat "nat option" rx
  | Grp nat rx

text \<open>A matcher state: the character before the current position, the text from the
  current position on, and the groups captured so far (latest first).\<close>

record mstate =
  prev :: "char option"
  rest :: string
  caps :: "(nat \<times> string) list"

definition take_char :: "(char \<Rightarrow> bool) \<Rightarrow> mstate \<Rightarrow> mstate list" where
  "take_char P st = (case rest st of
       [] \<Rightarrow> []
     | c # cs \<Rightarrow> if P c then [st\<lparr>prev := Some c, rest := cs\<rparr>] else [])"

definition at_boundary :: "mstate \<Rightarrow> bool" where
  "at_boundary st =
     ((case prev st of None \<Rightarrow> False | Some c \<Rightarrow> is_word c)
       \<noteq> (case rest st of [] \<Rightarrow> False | c # _ \<Rightarrow> is_word c))"

definition dec_max :: "nat option \<Rightarrow> nat option" where
  "dec_max hi = map_option (\<lambda>n. n - 1) hi"

text \<open>
  The optional iterations of a greedy repetition: one more iteration is tried first, then
  the continuation without it. After an iteration that consumed nothing the matcher does
  not iterate again.
\<close>

function rep_max :: "(mstate \<Rightarrow> mstate list) \<Rightarrow> nat option \<Rightarrow> mstate \<Rightarrow> mstate list" where
  "rep_max body hi st =
     (if hi = Some 0 then [st]
      else concat (map (\<lambda>st'. if length (rest st') < length (rest st)
                                then rep_max body (dec_max hi) st' else [st'])
                       (body st)) @ [st])"
  by pat_completeness auto
termination
  by (relation "measure (\<lambda>(body, hi, st). length (rest st))") auto

declare rep_max.simps [simp del]

text \<open>The mandatory iterations come first.\<close>

fun rep_min :: "(mstate \<Rightarrow> mstate list) \<Rightarrow> nat \<Rightarrow> nat option \<Rightarrow> mstate \<Rightarrow> mstate list" where
  "rep_min body 0 hi st = rep_max body hi st"
| "rep_min body (Suc lo) hi st = concat (map (rep_min body lo (dec_max hi)) (body st))"

definition set_cap :: "nat \<Rightarrow> mstate \<Rightarrow> mstate \<Rightarrow> mstate" where
  "set_cap n st st' =
     st'\<lparr>caps := (n, take (length (rest st) - length (rest st')) (rest st)) # caps st'\<rparr>"

primrec matches :: "rx \<Rightarrow> mstate \<Rightarrow> mstate list" where
  "matches Eps = (\<lambda>st. [st])"
| "matches (Lit c) = take_char (\<lambda>x. x = c)"
| "matches (In items) = take_char (\<lambda>x. \<exists>i \<in> set items. in_item x i)"
| "matches (NotIn items) = take_char (\<lambda>x. \<not> (\<exists>i \<in> set items. in_item x i))"
| "matches WordB = (\<lambda>st. if at_boundary st then [st] else [])"
| "matches (Seq a b) = (\<lambda>st. concat (map (matches b) (matches a st)))"
| "matches (Alt a b) = (\<lambda>st. matches a st @ matches b st)"
| "matches (Rep lo hi r) = rep_min (matches r) lo hi"
| "matches (Grp n r) = (\<lambda>st. map (set_cap n st) (matches r st))"

text \<open>The number of capturing groups of a pattern.\<close>

primrec rx_groups :: "rx \<Rightarrow> nat" where
  "rx_groups Eps = 0"
| "rx_groups (Lit c) = 0"
| "rx_groups (In items) = 0"
| "rx_groups (NotIn items) = 0"
| "rx_groups WordB = 0"
| "rx_groups (Seq a b) = max (rx_groups a) (rx_groups b)"
| "rx_groups (Alt a b) = max (rx_groups a) (rx_groups b)"
| "rx_groups (Rep lo hi r) = rx_groups r"
| "rx_groups (Grp n r) = max n (rx_groups r)"

text \<open>
  The first match at the current position. After an empty match the next match at the
  same position must not be empty (\<open>must_advance\<close>).
\<close>

definition first_match :: "rx \<Rightarrow> bool \<Rightarrow> char option \<Rightarrow> string \<Rightarrow> mstate option" where
  "first_match r must_advance p s =
     (case filter (\<lambda>st'. \<not> must_advance \<or> length (rest st') < length s)
                  (matches r \<lparr>prev = p, rest = s, caps = []\<rparr>) of
        [] \<Rightarrow> None
      | st' # _ \<Rightarrow> Some st')"

text \<open>
  The search for the leftmost match: the number of characters before it, its length, its
  groups and the character before its end.
\<close>

fun search :: "rx \<Rightarrow> bool \<Rightarrow> char option \<Rightarrow> string
    \<Rightarrow> (nat \<times> nat \<times> (nat \<times> string) list \<times> char option) option" where
  "search r must_advance p s =
     (case first_match r must_advance p s of
        Some st' \<Rightarrow> Some (0, length s - length (rest st'), caps st', prev st')
      | None \<Rightarrow>
         (case s of
            [] \<Rightarrow> None
          | c # cs \<Rightarrow> map_option (\<lambda>(b, n, g, q). (Suc b, n, g, q)) (search r False (Some c) cs)))"

declare search.simps [simp del]

text \<open>A match object: \<open>group(0)\<close>, the groups that took part in the match, and the
  number of groups of the pattern.\<close>

record py_match =
  group0 :: string
  captures :: "(nat \<times> string) list"
  ngroups :: nat

text \<open>\<open>m.group(k)\<close>: \<open>IndexError\<close> for a group the pattern does not have, \<open>None\<close> for one
  that did not take part.\<close>

definition match_group :: "py_match \<Rightarrow> nat \<Rightarrow> error + string option" where
  "match_group m k =
     (if k = 0 then Inr (Some (group0 m))
      else if k > ngroups m then Inl IndexError
      else Inr (map_of (captures m) k))"

text \<open>
  The non-overlapping matches of a pattern in a text, left to right, each with the text
  between the previous match and itself, and the text after the last match: the scan that
  \<open>Pattern.sub\<close> and \<open>Pattern.subn\<close> perform.
\<close>

function re_scan :: "rx \<Rightarrow> bool \<Rightarrow> char option \<Rightarrow> string \<Rightarrow> (string \<times> py_match) list \<times> string" where
  "re_scan r must_advance p s =
     (case search r must_advance p s of
        None \<Rightarrow> ([], s)
      | Some (b, n, g, q) \<Rightarrow>
          (case re_scan r (n = 0) q (drop (b + n) s) of
             (ms, tail) \<Rightarrow>
               ((take b s, \<lparr>group0 = take n (drop b s), captures = g, ngroups = rx_groups r\<rparr>) # ms,
                tail)))"
  by pat_completeness auto
termination
proof (relation "measure (\<lambda>(r, must_advance, p, s). 2 * length s + (if must_advance then 0 else 1))")
  show "wf (measure (\<lambda>(r, must_advance, p, s). 2 * length s + (if must_advance then 0 else 1)))"
    by simp
next
  fix r :: rx and must_advance :: bool and p :: "char option" and s :: string
    and x2 :: "nat \<times> nat \<times> (nat \<times> string) list \<times> char option"
    and b :: nat and y :: "nat \<times> (nat \<times> string) list \<times> char option"
    and n :: nat and ya :: "(nat \<times> string) list \<times> char option"
    and g :: "(nat \<times> string) list" and q :: "char option"
  assume a: "search r must_advance p s = Some x2" "(b, y) = x2" "(n, ya) = y" "(g, q) = ya"
  have bound: "b' + n' \<le> length s'" if "search r adv p' s' = Some (b', n', g', q')"
    for adv p' s' b' n' g' q'
    using that
  proof (induction s' arbitrary: adv p' b')
    case Nil
    then show ?case
      by (auto simp: search.simps [of r adv p' "[]"] split: option.splits)
  next
    case (Cons c cs)
    show ?case
    proof (cases "first_match r adv p' (c # cs)")
      case None
      with Cons.prems obtain b0 where "search r False (Some c) cs = Some (b0, n', g', q')" "b' = Suc b0"
        by (auto simp: search.simps [of r adv p' "c # cs"])
      with Cons.IH show ?thesis by fastforce
    next
      case (Some st')
      with Cons.prems show ?thesis
        by (auto simp: search.simps [of r adv p' "c # cs"])
    qed
  qed
  have adv: "0 < n'" if "search r True p' s' = Some (0, n', g', q')" for p' s' n' g' q'
    using that
    by (subst (asm) search.simps)
      (auto simp: first_match_def filter_eq_Cons_iff split: option.splits list.splits)
  from a have s: "search r must_advance p s = Some (b, n, g, q)" by auto
  from bound [OF s] adv [of p s n g q] s
  show "((r, n = 0, q, drop (b + n) s), r, must_advance, p, s)
        \<in> measure (\<lambda>(r, must_advance, p, s). 2 * length s + (if must_advance then 0 else 1))"
    by (cases must_advance; cases "b + n = 0") auto
qed

declare re_scan.simps [simp del]

text \<open>The replacement callback is called on every match in turn; it may change a state
  and it may raise.\<close>

fun re_sub_fold :: "(py_match \<Rightarrow> 's \<Rightarrow> error + string \<times> 's) \<Rightarrow> (string \<times> py_match) list
    \<Rightarrow> string \<Rightarrow> 's \<Rightarrow> error + string \<times> 's" where
  "re_sub_fold repl [] tail \<sigma> = Inr (tail, \<sigma>)"
| "re_sub_fold repl ((gap, m) # ms) tail \<sigma> =
     (case repl m \<sigma> of
        Inl e \<Rightarrow> Inl e
      | Inr (item, \<sigma>') \<Rightarrow>
          (case re_sub_fold repl ms tail \<sigma>' of
             Inl e \<Rightarrow> Inl e
           | Inr (out, \<sigma>'') \<Rightarrow> Inr (gap @ item @ out, \<sigma>'')))"

text \<open>\<open>p.sub(repl, text)\<close> and \<open>p.subn(repl, text)\<close>.\<close>

definition re_sub :: "rx \<Rightarrow> (py_match \<Rightarrow> 's \<Rightarrow> error + string \<times> 's) \<Rightarrow> string \<Rightarrow> 's
    \<Rightarrow> error + string \<times> 's" where
  "re_sub p repl text \<sigma> =
     (case re_scan p False None text of (ms, tail) \<Rightarrow> re_sub_fold repl ms tail \<sigma>)"

definition re_subn :: "rx \<Rightarrow> (py_match \<Rightarrow> 's \<Rightarrow> error + string \<times> 's) \<Rightarrow> string \<Rightarrow> 's
    \<Rightarrow> error + (string \<times> nat) \<times> 's" where
  "re_subn p repl text \<sigma> =
     (case re_scan p False None text of
        (ms, tail) \<Rightarrow>
          (case re_sub_fold repl ms tail \<sigma> of
             Inl e \<Rightarrow> Inl e
           | Inr (out, \<sigma>') \<Rightarrow> Inr ((out, length ms), \<sigma>')))"

subsection \<open>The default patterns\<close>

definition seqs :: "rx list \<Rightarrow> rx" where
  "seqs rs = foldr Seq rs Eps"

definition opt :: "rx \<Rightarrow> rx" where
  "opt r = Rep 0 (Some 1) r"

definition plus :: "rx \<Rightarrow> rx" where
  "plus r = Rep 1 None r"

definition times :: "nat \<Rightarrow> rx \<Rightarrow> rx" where
  "times n r = Rep n (Some n) r"

definition at_least :: "nat \<Rightarrow> rx \<Rightarrow> rx" where
  "at_least n r = Rep n None r"

definition digit :: rx where
  "digit = In [ClsDigit]"

definition upper_az :: rx where
  "upper_az = In [Range CHR ''A'' CHR ''Z'']"

definition lower_az :: rx where
  "lower_az = In [Range CHR ''a'' CHR ''z'']"

definition sep_space_dash :: rx where
  "sep_space_dash = In [Ch CHR '' '', Ch CHR ''-'']"

definition sep_slash_dash :: rx where
  "sep_slash_dash = In [Ch CHR ''/'', Ch CHR ''-'']"

text \<open>\<^verbatim>\<open>\b[2-9]\d{3}[ -]?\d{4}[ -]?\d{4}\b\<close>\<close>

definition AADHAAR_PATTERN :: rx where
  "AADHAAR_PATTERN = seqs [WordB, In [Range CHR ''2'' CHR ''9''], times 3 digit,
     opt sep_space_dash, times 4 digit, opt sep_space_dash, times 4 digit, WordB]"

text \<open>\<^verbatim>\<open>\b([A-Z]{5}\d{4}[A-Z])\b\<close>\<close>

definition PAN_PATTERN :: rx where
  "PAN_PATTERN = seqs [WordB, Grp 1 (seqs [times 5 upper_az, times 4 digit, upper_az]), WordB]"

text \<open>\<^verbatim>\<open>\b(\d{4}[- ]?\d{4}[- ]?\d{4}[- ]?\d{4})\b\<close>\<close>

definition CREDIT_CARD_PATTERN :: rx where
  "CREDIT_CARD_PATTERN = seqs [WordB,
     Grp 1 (seqs [times 4 digit, opt sep_space_dash, times 4 digit, opt sep_space_dash,
                  times 4 digit, opt sep_space_dash, times 4 digit]),
     WordB]"

text \<open>\<^verbatim>\<open>\b([A-Za-z0-9._%+-]+@([A-Za-z0-9.-]+\.[A-Za-z]{2,}))\b\<close>\<close>

definition email_local :: rx where
  "email_local = plus (In [Range CHR ''A'' CHR ''Z'', Range CHR ''a'' CHR ''z'',
     Range CHR ''0'' CHR ''9'', Ch CHR ''.'', Ch CHR ''_'', Ch CHR ''%'', Ch CHR ''+'', Ch CHR ''-''])"

definition email_domain :: rx where
  "email_domain = seqs [plus (In [Range CHR ''A'' CHR ''Z'', Range CHR ''a'' CHR ''z'',
                                  Range CHR ''0'' CHR ''9'', Ch CHR ''.'', Ch CHR ''-'']),
                        Lit CHR ''.'',
                        at_least 2 (In [Range CHR ''A'' CHR ''Z'', Range CHR ''a'' CHR ''z''])]"

definition EMAIL_PATTERN :: rx where
  "EMAIL_PATTERN = seqs [WordB, Grp 1 (seqs [email_local, Lit CHR ''@'', Grp 2 email_domain]), WordB]"

text \<open>\<^verbatim>\<open>\b([A-Z]\d{7})\b\<close>\<close>

definition PASSPORT_PATTERN :: rx where
  "PASSPORT_PATTERN = seqs [WordB, Grp 1 (seqs [upper_az, times 7 digit]), WordB]"

text \<open>\<^verbatim>\<open>\b(([A-Z]{2})-?(\d{13}))\b\<close>\<close>

definition DRIVING_LICENSE_PATTERN :: rx where
  "DRIVING_LICENSE_PATTERN = seqs [WordB,
     Grp 1 (seqs [Grp 2 (times 2 upper_az), opt (Lit CHR ''-''), Grp 3 (times 13 digit)]),
     WordB]"

text \<open>\<^verbatim>\<open>\b(?:\+91[\s-]?)?([6-9]\d{9})\b\<close>\<close>

definition PHONE_PATTERN :: rx where
  "PHONE_PATTERN = seqs [WordB,
     opt (seqs [Lit CHR ''+'', Lit CHR ''9'', Lit CHR ''1'', opt (In [ClsSpace, Ch CHR ''-''])]),
     Grp 1 (seqs [In [Range CHR ''6'' CHR ''9''], times 9 digit]),
     WordB]"

text \<open>\<^verbatim>\<open>\b([A-Z][a-z]{2,}(?:\s[A-Z][a-z]{2,})+)\b\<close>\<close>

definition PERSON_PATTERN :: rx where
  "PERSON_PATTERN = seqs [WordB,
     Grp 1 (seqs [upper_az, at_least 2 lower_az,
                  plus (seqs [In [ClsSpace], upper_az, at_least 2 lower_az])]),
     WordB]"

text \<open>\<^verbatim>\<open>\b([A-Z]{3}\d{7})\b\<close>\<close>

definition VOTER_ID_PATTERN :: rx where
  "VOTER_ID_PATTERN = seqs [WordB, Grp 1 (seqs [times 3 upper_az, times 7 digit]), WordB]"

text \<open>\<^verbatim>\<open>\b(\d{2}[/-]\d{2}[/-]\d{4}|\d{4}[/-]\d{2}[/-]\d{2})\b\<close>\<close>

definition DOB_PATTERN :: rx where
  "DOB_PATTERN = seqs [WordB,
     Grp 1 (Alt (seqs [times 2 digit, sep_slash_dash, times 2 digit, sep_slash_dash, times 4 digit])
                (seqs [times 4 digit, sep_slash_dash, times 2 digit, sep_slash_dash, times 2 digit])),
     WordB]"

section \<open>Masking\<close>

text \<open>
  The keyword arguments of a handler: the entries \<open>enabled\<close>, \<open>strategy\<close> and \<open>char\<close> of a
  mask configuration. A handler reads the last two with a default.
\<close>

record maskconfig =
  enabled :: bool
  strategy :: "string option"
  mask_char :: "string option"

definition get_strategy :: "maskconfig \<Rightarrow> string" where
  "get_strategy kwargs = (case strategy kwargs of None \<Rightarrow> ''partial'' | Some s \<Rightarrow> s)"

definition get_char :: "maskconfig \<Rightarrow> string" where
  "get_char kwargs = (case mask_char kwargs of None \<Rightarrow> ''*'' | Some c \<Rightarrow> c)"

text \<open>
  The run context is \<open>None\<close>, a dictionary, or some other object, which is true or false
  in a condition. A dictionary holds pseudonymizers under the keys the handlers use, and
  possibly other values.
\<close>

datatype pyval = Anonymizer pseudonymizer | Opaque

datatype run_context = NoContext | DictContext "(string \<times> pyval) list" | OtherContext bool

text \<open>\<open>context and isinstance(context, dict)\<close>: an empty dictionary is false.\<close>

definition usable_context :: "run_context \<Rightarrow> (string \<times> pyval) list option" where
  "usable_context c = (case c of DictContext d \<Rightarrow> if d = [] then None else Some d | _ \<Rightarrow> None)"

text \<open>
  What a handler reads and changes besides its arguments: the run context, which it gets
  as the keyword argument \<open>context\<close>, and the generator of the \<open>random\<close> module: the
  sequence of its draws and the number of draws made so far.
\<close>

record world =
  ctx :: run_context
  rng :: "nat \<Rightarrow> nat"
  drawn :: nat

text \<open>\<open>random.choice(seq)\<close> and \<open>random.randint(0, hi)\<close>.\<close>

definition choice :: "string \<Rightarrow> world \<Rightarrow> char \<times> world" where
  "choice seq w = (seq ! (rng w (drawn w) mod length seq), w\<lparr>drawn := drawn w + 1\<rparr>)"

definition randint0 :: "nat \<Rightarrow> world \<Rightarrow> nat \<times> world" where
  "randint0 hi w = (rng w (drawn w) mod (hi + 1), w\<lparr>drawn := drawn w + 1\<rparr>)"

text \<open>\<open>d.setdefault(key, EmailPseudonymizer())\<close>.\<close>

definition setdefault :: "(string \<times> pyval) list \<Rightarrow> string \<Rightarrow> pyval \<times> (string \<times> pyval) list" where
  "setdefault d key =
     (case map_of d key of
        None \<Rightarrow> (Anonymizer EmailPseudonymizer, d @ [(key, Anonymizer EmailPseudonymizer)])
      | Some v \<Rightarrow> (v, d))"

text \<open>
  \<open>anonymizer = context.setdefault(key, EmailPseudonymizer())\<close> followed by
  \<open>anonymizer.pseudonymize(k)\<close> for each \<open>k\<close> of \<open>ks\<close>; the pseudonymizer is changed in
  place, inside the dictionary.
\<close>

definition context_pseudonymize :: "string \<Rightarrow> (string \<times> pyval) list \<Rightarrow> string list
    \<Rightarrow> error + string list \<times> (string \<times> pyval) list" where
  "context_pseudonymize key d ks =
     (case setdefault d key of
        (Anonymizer a, d') \<Rightarrow>
          (case pseudonymize_calls a ks of
             Inl e \<Rightarrow> Inl e
           | Inr (aliases, a') \<Rightarrow> Inr (aliases, dict_set d' key (Anonymizer a')))
      | (Opaque, d') \<Rightarrow> if ks = [] then Inr ([], d') else Inl AttributeError)"

definition apply_mask :: "(bytes \<Rightarrow> string) \<Rightarrow> py_match \<Rightarrow> string \<Rightarrow> string \<Rightarrow> string
    \<Rightarrow> (py_match \<Rightarrow> 's \<Rightarrow> error + string \<times> 's) \<Rightarrow> 's \<Rightarrow> error + string \<times> 's" where
  "apply_mask sha256_hexdigest m strat mchar pii_type partial_mask_func \<sigma> =
     (let original_text = group0 m in
      if strat = ''partial'' then partial_mask_func m \<sigma>
      else if strat = ''full'' then Inr (repeat mchar (length original_text), \<sigma>)
      else if strat = ''hash'' then Inr (sha256_hexdigest (utf8_encode original_text), \<sigma>)
      else if strat = ''encrypt'' then
        (case encrypt_decrypt original_text XOR_KEY of
           Inl e \<Rightarrow> Inl e
         | Inr encrypted \<Rightarrow> Inr (b64encode (utf8_encode encrypted), \<sigma>))
      else if strat = ''redact'' then Inr (''['' @ upper pii_type @ ''_REDACTED]'', \<sigma>)
      else Inr (original_text, \<sigma>))"

subsection \<open>The handlers\<close>

text \<open>
  Every handler takes the digest function of \<open>hashlib\<close>, the text, the optional pattern
  override, the keyword arguments and the world, and returns the new text with the match
  count. For \<open>mask_aadhaar\<close> and \<open>mask_credit_cards\<close> the state of the replacement
  callback carries the \<open>nonlocal count\<close>.
\<close>

type_synonym handler =
  "(bytes \<Rightarrow> string) \<Rightarrow> string \<Rightarrow> rx option \<Rightarrow> maskconfig \<Rightarrow> world \<Rightarrow> error + (string \<times> nat) \<times> world"

definition pattern_or :: "rx option \<Rightarrow> rx \<Rightarrow> rx" where
  "pattern_or pattern dflt = (case pattern of None \<Rightarrow> dflt | Some p \<Rightarrow> p)"

definition aadhaar_partial :: "maskconfig \<Rightarrow> string \<Rightarrow> py_match \<Rightarrow> 's \<Rightarrow> error + string \<times> 's" where
  "aadhaar_partial kwargs raw m \<sigma> =
     Inr (take 4 raw @ ''-'' @ repeat (get_char kwargs) 4 @ ''-'' @ drop 8 raw, \<sigma>)"

definition aadhaar_repl :: "(bytes \<Rightarrow> string) \<Rightarrow> maskconfig \<Rightarrow> py_match \<Rightarrow> nat \<times> world
    \<Rightarrow> error + string \<times> nat \<times> world" where
  "aadhaar_repl h kwargs m \<sigma> =
     (let raw = filter is_ascii_digit (group0 m) in
      if length raw \<noteq> 12 \<or> \<not> aadhaar_verhoeff raw then Inr (group0 m, \<sigma>)
      else apply_mask h m (get_strategy kwargs) (get_char kwargs) ''Aadhaar''
             (aadhaar_partial kwargs raw) (fst \<sigma> + 1, snd \<sigma>))"

definition mask_aadhaar :: handler where
  "mask_aadhaar h text pattern kwargs w =
     (case re_sub (pattern_or pattern AADHAAR_PATTERN) (aadhaar_repl h kwargs) text (0, w) of
        Inl e \<Rightarrow> Inl e
      | Inr (masked_text, count, w') \<Rightarrow> Inr ((masked_text, count), w'))"

definition generate_synthetic_pan :: "world \<Rightarrow> string \<times> world" where
  "generate_synthetic_pan w0 =
     (let consonants = ''BCDFGHJKLMNPQRSTVWXYZ''; vowels = ''AEIOU'';
          (c1, w1) = choice consonants w0;
          (c2, w2) = choice vowels w1;
          (c3, w3) = choice consonants w2;
          (c4, w4) = choice vowels w3;
          (c5, w5) = choice consonants w4;
          (n, w6) = randint0 9999 w5;
          (c6, w7) = choice ''ABCDEFGHIJKLMNOPQRSTUVWXYZ'' w6
      in ([c1, c2, c3, c4, c5] @ zero_pad 4 n @ [c6], w7))"

definition pan_repl :: "(bytes \<Rightarrow> string) \<Rightarrow> maskconfig \<Rightarrow> py_match \<Rightarrow> world \<Rightarrow> error + string \<times> world" where
  "pan_repl h kwargs m w =
     apply_mask h m (get_strategy kwargs) (get_char kwargs) ''PAN''
       (\<lambda>match w'. Inr (generate_synthetic_pan w')) w"

definition anonymize_pan :: handler where
  "anonymize_pan h text pattern kwargs w =
     re_subn (pattern_or pattern PAN_PATTERN) (pan_repl h kwargs) text w"

definition credit_card_partial :: "maskconfig \<Rightarrow> string \<Rightarrow> py_match \<Rightarrow> 's \<Rightarrow> error + string \<times> 's" where
  "credit_card_partial kwargs raw m \<sigma> =
     Inr (repeat (get_char kwargs) 4 @ ''-'' @ repeat (get_char kwargs) 4 @ ''-''
          @ repeat (get_char kwargs) 4 @ ''-'' @ last_n 4 raw, \<sigma>)"

definition credit_card_repl :: "(bytes \<Rightarrow> string) \<Rightarrow> maskconfig \<Rightarrow> py_match \<Rightarrow> nat \<times> world
    \<Rightarrow> error + string \<times> nat \<times> world" where
  "credit_card_repl h kwargs m \<sigma> =
     (let raw = filter is_ascii_digit (group0 m) in
      case luhn_checksum_ok raw of
        Inl e \<Rightarrow> Inl e
      | Inr ok \<Rightarrow>
          if \<not> ok then Inr (group0 m, \<sigma>)
          else apply_mask h m (get_strategy kwargs) (get_char kwargs) ''Credit Card''
                 (credit_card_partial kwargs raw) (fst \<sigma> + 1, snd \<sigma>))"

definition mask_credit_cards :: handler where
  "mask_credit_cards h text pattern kwargs w =
     (case re_sub (pattern_or pattern CREDIT_CARD_PATTERN) (credit_card_repl h kwargs) text (0, w) of
        Inl e \<Rightarrow> Inl e
      | Inr (masked_text, count, w') \<Rightarrow> Inr ((masked_text, count), w'))"

definition email_partial :: "py_match \<Rightarrow> world \<Rightarrow> error + string \<times> world" where
  "email_partial match w =
     (case match_group match 1 of
        Inl e \<Rightarrow> Inl e
      | Inr None \<Rightarrow> Inl TypeError
      | Inr (Some full_email) \<Rightarrow>
          if CHR ''@'' \<notin> set full_email then Inr (''Invalid Email Match: '' @ full_email, w)
          else
            (case rsplit1 CHR ''@'' full_email of
               (local, domain) \<Rightarrow>
                 (case usable_context (ctx w) of
                    Some d \<Rightarrow>
                      (case context_pseudonymize ''email_anonymizer'' d [local] of
                         Inl e \<Rightarrow> Inl e
                       | Inr (aliases, d') \<Rightarrow>
                           Inr (concat aliases @ ''@'' @ domain, w\<lparr>ctx := DictContext d'\<rparr>))
                  | None \<Rightarrow> Inr (''user@'' @ domain, w))))"

definition email_repl :: "(bytes \<Rightarrow> string) \<Rightarrow> maskconfig \<Rightarrow> py_match \<Rightarrow> world \<Rightarrow> error + string \<times> world" where
  "email_repl h kwargs m w =
     apply_mask h m (get_strategy kwargs) (get_char kwargs) ''Email'' email_partial w"

definition pseudo_email :: handler where
  "pseudo_email h text pattern kwargs w =
     re_subn (pattern_or pattern EMAIL_PATTERN) (email_repl h kwargs) text w"

definition passport_partial :: "maskconfig \<Rightarrow> py_match \<Rightarrow> 's \<Rightarrow> error + string \<times> 's" where
  "passport_partial kwargs match \<sigma> =
     (let raw = group0 match in
      case index raw 0 of
        Inl e \<Rightarrow> Inl e
      | Inr c \<Rightarrow> Inr (c # repeat (get_char kwargs) (length raw - 1), \<sigma>))"

definition passport_repl :: "(bytes \<Rightarrow> string) \<Rightarrow> maskconfig \<Rightarrow> py_match \<Rightarrow> world \<Rightarrow> error + string \<times> world" where
  "passport_repl h kwargs m w =
     apply_mask h m (get_strategy kwargs) (get_char kwargs) ''Passport'' (passport_partial kwargs) w"

definition mask_passport :: handler where
  "mask_passport h text pattern kwargs w =
     re_subn (pattern_or pattern PASSPORT_PATTERN) (passport_repl h kwargs) text w"

definition driving_license_partial :: "maskconfig \<Rightarrow> py_match \<Rightarrow> 's \<Rightarrow> error + string \<times> 's" where
  "driving_license_partial kwargs match \<sigma> =
     (case match_group match 2 of
        Inl e \<Rightarrow> Inl e
      | Inr g \<Rightarrow>
          (let state_code = (case g of None \<Rightarrow> [] | Some s \<Rightarrow> s) in
           if state_code \<noteq> [] then Inr (state_code @ repeat (get_char kwargs) 14, \<sigma>)
           else Inr (group0 match, \<sigma>)))"

definition driving_license_repl :: "(bytes \<Rightarrow> string) \<Rightarrow> maskconfig \<Rightarrow> py_match \<Rightarrow> world
    \<Rightarrow> error + string \<times> world" where
  "driving_license_repl h kwargs m w =
     apply_mask h m (get_strategy kwargs) (get_char kwargs) ''Driving License''
       (driving_license_partial kwargs) w"

definition mask_driving_license :: handler where
  "mask_driving_license h text pattern kwargs w =
     re_subn (pattern_or pattern DRIVING_LICENSE_PATTERN) (driving_license_repl h kwargs) text w"

definition phone_partial :: "maskconfig \<Rightarrow> py_match \<Rightarrow> 's \<Rightarrow> error + string \<times> 's" where
  "phone_partial kwargs match \<sigma> =
     (let raw = last_n 10 (filter is_ascii_digit (group0 match)) in
      Inr (take 2 raw @ repeat (get_char kwargs) 6 @ last_n 2 raw, \<sigma>))"

definition phone_repl :: "(bytes \<Rightarrow> string) \<Rightarrow> maskconfig \<Rightarrow> py_match \<Rightarrow> world \<Rightarrow> error + string \<times> world" where
  "phone_repl h kwargs m w =
     apply_mask h m (get_strategy kwargs) (get_char kwargs) ''Phone'' (phone_partial kwargs) w"

definition mask_phone :: handler where
  "mask_phone h text pattern kwargs w =
     re_subn (pattern_or pattern PHONE_PATTERN) (phone_repl h kwargs) text w"

text \<open>\<open>p[0] + char * (len(p) - 1)\<close> for each part.\<close>

fun initial_and_mask :: "string \<Rightarrow> string list \<Rightarrow> error + string list" where
  "initial_and_mask mchar [] = Inr []"
| "initial_and_mask mchar (p # ps) =
     (case index p 0 of
        Inl e \<Rightarrow> Inl e
      | Inr c \<Rightarrow>
          (case initial_and_mask mchar ps of
             Inl e \<Rightarrow> Inl e
           | Inr out \<Rightarrow> Inr ((c # repeat mchar (length p - 1)) # out)))"

definition person_partial :: "maskconfig \<Rightarrow> py_match \<Rightarrow> world \<Rightarrow> error + string \<times> world" where
  "person_partial kwargs match w =
     (let parts = split (group0 match) in
      case usable_context (ctx w) of
        Some d \<Rightarrow>
          (case context_pseudonymize ''person_anonymizer'' d parts of
             Inl e \<Rightarrow> Inl e
           | Inr (aliases, d') \<Rightarrow> Inr (join '' '' aliases, w\<lparr>ctx := DictContext d'\<rparr>))
      | None \<Rightarrow>
          (case initial_and_mask (get_char kwargs) parts of
             Inl e \<Rightarrow> Inl e
           | Inr out \<Rightarrow> Inr (join '' '' out, w)))"

definition person_repl :: "(bytes \<Rightarrow> string) \<Rightarrow> maskconfig \<Rightarrow> py_match \<Rightarrow> world \<Rightarrow> error + string \<times> world" where
  "person_repl h kwargs m w =
     apply_mask h m (get_strategy kwargs) (get_char kwargs) ''Person'' (person_partial kwargs) w"

definition mask_person :: handler where
  "mask_person h text pattern kwargs w =
     re_subn (pattern_or pattern PERSON_PATTERN) (person_repl h kwargs) text w"

definition generate_synthetic_voter_id :: "world \<Rightarrow> string \<times> world" where
  "generate_synthetic_voter_id w0 =
     (let letters = ''ABCDEFGHIJKLMNOPQRSTUVWXYZ'';
          (c1, w1) = choice letters w0;
          (c2, w2) = choice letters w1;
          (c3, w3) = choice letters w2;
          (n, w4) = randint0 9999999 w3
      in ([c1, c2, c3] @ zero_pad 7 n, w4))"

definition voter_id_repl :: "(bytes \<Rightarrow> string) \<Rightarrow> maskconfig \<Rightarrow> py_match \<Rightarrow> world \<Rightarrow> error + string \<times> world" where
  "voter_id_repl h kwargs m w =
     apply_mask h m (get_strategy kwargs) (get_char kwargs) ''VoterID''
       (\<lambda>match w'. Inr (generate_synthetic_voter_id w')) w"

definition mask_voter_id :: handler where
  "mask_voter_id h text pattern kwargs w =
     re_subn (pattern_or pattern VOTER_ID_PATTERN) (voter_id_repl h kwargs) text w"

definition dob_partial :: "maskconfig \<Rightarrow> py_match \<Rightarrow> 's \<Rightarrow> error + string \<times> 's" where
  "dob_partial kwargs match \<sigma> = Inr (repeat (get_char kwargs) (length (group0 match)), \<sigma>)"

definition dob_repl :: "(bytes \<Rightarrow> string) \<Rightarrow> maskconfig \<Rightarrow> py_match \<Rightarrow> world \<Rightarrow> error + string \<times> world" where
  "dob_repl h kwargs m w =
     apply_mask h m (get_strategy kwargs) (get_char kwargs) ''DOB'' (dob_partial kwargs) w"

definition mask_dob :: handler where
  "mask_dob h text pattern kwargs w =
     re_subn (pattern_or pattern DOB_PATTERN) (dob_repl h kwargs) text w"

definition PII_HANDLERS :: "(string \<times> handler) list" where
  "PII_HANDLERS =
     [(''aadhaar'', mask_aadhaar), (''pan'', anonymize_pan), (''credit_card'', mask_credit_cards),
      (''email'', pseudo_email), (''passport'', mask_passport),
      (''driving_license'', mask_driving_license), (''phone'', mask_phone),
      (''person'', mask_person), (''voter_id'', mask_voter_id), (''dob'', mask_dob)]"

subsection \<open>Processing a text and a record\<close>

text \<open>\<open>(d or {}).get(key)\<close> for an optional dictionary.\<close>

definition get_opt :: "('k \<rightharpoonup> 'v) option \<Rightarrow> 'k \<Rightarrow> 'v option" where
  "get_opt d key = (case d of None \<Rightarrow> None | Some m \<Rightarrow> m key)"

definition config_for :: "(string \<rightharpoonup> maskconfig) option \<Rightarrow> string \<Rightarrow> maskconfig" where
  "config_for mask_configs key =
     (case get_opt mask_configs key of
        None \<Rightarrow> \<lparr>enabled = False, strategy = None, mask_char = None\<rparr>
      | Some config \<Rightarrow> config)"

text \<open>One round of the loop of \<open>process_text\<close>. The state is the text, the counts and the
  world; \<open>config['context'] = context\<close> hands the context of the world to the handler.\<close>

definition process_key :: "(bytes \<Rightarrow> string) \<Rightarrow> (string \<rightharpoonup> rx) option \<Rightarrow> (string \<rightharpoonup> maskconfig) option
    \<Rightarrow> string \<times> handler \<Rightarrow> string \<times> (string \<times> nat) list \<times> world
    \<Rightarrow> error + string \<times> (string \<times> nat) list \<times> world" where
  "process_key h patterns mask_configs kh st =
     (case (kh, st) of
        ((key, handler), (text, counts, w)) \<Rightarrow>
          (let config = config_for mask_configs key in
           if enabled config then
             (case handler h text (get_opt patterns key) config w of
                Inl e \<Rightarrow> Inl e
              | Inr ((text', count), w') \<Rightarrow>
                  (case map_of counts key of
                     None \<Rightarrow> Inl KeyError
                   | Some c \<Rightarrow> Inr (text', dict_set counts key (c + count), w')))
           else Inr (text, counts, w)))"

fun process_keys :: "(bytes \<Rightarrow> string) \<Rightarrow> (string \<rightharpoonup> rx) option \<Rightarrow> (string \<rightharpoonup> maskconfig) option
    \<Rightarrow> (string \<times> handler) list \<Rightarrow> string \<times> (string \<times> nat) list \<times> world
    \<Rightarrow> error + string \<times> (string \<times> nat) list \<times> world" where
  "process_keys h patterns mask_configs [] st = Inr st"
| "process_keys h patterns mask_configs (kh # khs) st =
     (case process_key h patterns mask_configs kh st of
        Inl e \<Rightarrow> Inl e
      | Inr st' \<Rightarrow> process_keys h patterns mask_configs khs st')"

text \<open>\<open>process_text\<close> over a table of handlers; the repository's table is \<open>PII_HANDLERS\<close>.\<close>

definition process_text_with :: "(string \<times> handler) list \<Rightarrow> (bytes \<Rightarrow> string) \<Rightarrow> string
    \<Rightarrow> (string \<rightharpoonup> rx) option \<Rightarrow> (string \<rightharpoonup> maskconfig) option \<Rightarrow> world
    \<Rightarrow> error + (string \<times> (string \<times> nat) list) \<times> world" where
  "process_text_with handlers h text patterns mask_configs w =
     (case process_keys h patterns mask_configs handlers (text, map (\<lambda>kh. (fst kh, 0)) handlers, w) of
        Inl e \<Rightarrow> Inl e
      | Inr (text', counts, w') \<Rightarrow> Inr ((text', counts), w'))"

definition process_text :: "(bytes \<Rightarrow> string) \<Rightarrow> string \<Rightarrow> (string \<rightharpoonup> rx) option
    \<Rightarrow> (string \<rightharpoonup> maskconfig) option \<Rightarrow> world \<Rightarrow> error + (string \<times> (string \<times> nat) list) \<times> world" where
  "process_text = process_text_with PII_HANDLERS"

text \<open>\<open>total_counts[key] += cell_counts.get(key, 0)\<close> for every key of \<open>total_counts\<close>.\<close>

definition add_counts :: "(string \<times> nat) list \<Rightarrow> (string \<times> nat) list \<Rightarrow> (string \<times> nat) list" where
  "add_counts total_counts cell_counts =
     map (\<lambda>(key, c). (key, c + (case map_of cell_counts key of None \<Rightarrow> 0 | Some n \<Rightarrow> n))) total_counts"

text \<open>The loop of \<open>detect_and_deidentify_record\<close> over the cells; \<open>cell or ""\<close> reads an
  absent cell as the empty text.\<close>

fun record_cells :: "(bytes \<Rightarrow> string) \<Rightarrow> (string \<rightharpoonup> rx) option \<Rightarrow> (string \<rightharpoonup> maskconfig) option
    \<Rightarrow> string option list \<Rightarrow> string list \<times> (string \<times> nat) list \<times> world
    \<Rightarrow> error + string list \<times> (string \<times> nat) list \<times> world" where
  "record_cells h patterns mask_configs [] st = Inr st"
| "record_cells h patterns mask_configs (cell # cells) (out_row, total_counts, w) =
     (case process_text h (case cell of None \<Rightarrow> [] | Some s \<Rightarrow> s) patterns mask_configs w of
        Inl e \<Rightarrow> Inl e
      | Inr ((masked_cell, cell_counts), w') \<Rightarrow>
          record_cells h patterns mask_configs cells
            (out_row @ [masked_cell], add_counts total_counts cell_counts, w'))"

definition detect_and_deidentify_record :: "(bytes \<Rightarrow> string) \<Rightarrow> string option list
    \<Rightarrow> (string \<rightharpoonup> rx) option \<Rightarrow> (string \<rightharpoonup> maskconfig) option \<Rightarrow> world
    \<Rightarrow> error + (string list \<times> (string \<times> nat) list) \<times> world" where
  "detect_and_deidentify_record h row patterns mask_configs w =
     (case record_cells h patterns mask_configs row ([], map (\<lambda>kh. (fst kh, 0)) PII_HANDLERS, w) of
        Inl e \<Rightarrow> Inl e
      | Inr (out_row, total_counts, w') \<Rightarrow> Inr ((out_row, total_counts), w'))"

subsection \<open>Processing a batch\<close>

text \<open>
  The loop of \<open>Worker.run\<close> over the rows of a file (\<open>process_file\<close> of the web
  application has the same loop), the interruption flag apart. The run context is created
  as the empty dictionary before the first row and is handed to every row.
\<close>

record summary =
  rows_processed :: nat
  matches_found :: "(string \<times> nat) list"

fun rows_loop :: "(bytes \<Rightarrow> string) \<Rightarrow> (string \<rightharpoonup> rx) option \<Rightarrow> (string \<rightharpoonup> maskconfig) option
    \<Rightarrow> string option list list \<Rightarrow> string list list \<times> summary \<times> world
    \<Rightarrow> error + string list list \<times> summary \<times> world" where
  "rows_loop h patterns mask_configs [] st = Inr st"
| "rows_loop h patterns mask_configs (row # rows) (deidentified_rows, sm, w) =
     (case detect_and_deidentify_record h row patterns mask_configs w of
        Inl e \<Rightarrow> Inl e
      | Inr ((deid_row, row_counts), w') \<Rightarrow>
          rows_loop h patterns mask_configs rows
            (deidentified_rows @ [deid_row],
             \<lparr>rows_processed = rows_processed sm + 1,
              matches_found = add_counts (matches_found sm) row_counts\<rparr>, w'))"

definition process_rows :: "(bytes \<Rightarrow> string) \<Rightarrow> (string \<rightharpoonup> rx) option \<Rightarrow> (string \<rightharpoonup> maskconfig) option
    \<Rightarrow> string option list list \<Rightarrow> world \<Rightarrow> error + (string list list \<times> summary) \<times> world" where
  "process_rows h patterns mask_configs input_rows w =
     (case rows_loop h patterns mask_configs input_rows
             ([], \<lparr>rows_processed = 0, matches_found = map (\<lambda>kh. (fst kh, 0)) PII_HANDLERS\<rparr>,
              w\<lparr>ctx := DictContext []\<rparr>) of
        Inl e \<Rightarrow> Inl e
      | Inr (deidentified_rows, sm, w') \<Rightarrow> Inr ((deidentified_rows, sm), w'))"

section \<open>Metrics\<close>

text \<open>
  A Python \<open>float\<close> is a binary64 number. It is modelled as the rational number it
  denotes, and an operation on floats as the exact operation followed by \<open>binary64\<close>, the
  rounding to the nearest binary64 number with ties to the even significand (53 bits of
  significand, least exponent \<open>-1022\<close>). The numbers rounded below lie between 0 and 2, so
  the overflow to infinity does not arise.
\<close>

function bit_length :: "nat \<Rightarrow> nat" where
  "bit_length n = (if n = 0 then 0 else Suc (bit_length (n div 2)))"
  by pat_completeness auto
termination
  by (relation "measure id") auto

declare bit_length.simps [simp del]

definition pow2 :: "int \<Rightarrow> rat" where
  "pow2 e = (if 0 \<le> e then 2 ^ nat e else 1 / 2 ^ nat (- e))"

text \<open>The exponent of a positive number: the integer part of its binary logarithm.\<close>

definition exponent2 :: "rat \<Rightarrow> int" where
  "exponent2 x =
     (if 1 \<le> x then int (bit_length (nat \<lfloor>x\<rfloor>)) - 1
      else - int (bit_length (nat (\<lceil>1 / x\<rceil> - 1))))"

definition round_half_even :: "rat \<Rightarrow> int" where
  "round_half_even y =
     (let f = \<lfloor>y\<rfloor>; d = y - of_int f
      in if d < 1 / 2 then f else if 1 / 2 < d then f + 1 else if even f then f else f + 1)"

definition binary64 :: "rat \<Rightarrow> rat" where
  "binary64 x =
     (if x = 0 then 0
      else let ulp = pow2 (max (exponent2 \<bar>x\<bar>) (- 1022) - 52)
           in sgn x * of_int (round_half_even (\<bar>x\<bar> / ulp)) * ulp)"

text \<open>\<open>a / b\<close> for two integers and for two floats.\<close>

definition int_truediv :: "int \<Rightarrow> int \<Rightarrow> error + rat" where
  "int_truediv a b = (if b = 0 then Inl ZeroDivisionError else Inr (binary64 (of_int a / of_int b)))"

definition float_truediv :: "rat \<Rightarrow> rat \<Rightarrow> error + rat" where
  "float_truediv a b = (if b = 0 then Inl ZeroDivisionError else Inr (binary64 (a / b)))"

text \<open>
  The entry of one category. \<open>found\<close> is a sum of match counts and \<open>expected\<close>, when set,
  the value of a string of digits: both are natural numbers.
\<close>

record metric_entry =
  found :: nat
  expected :: "nat option"
  tp :: int
  fp :: int
  precision :: rat
  recall :: rat
  f1 :: rat
  risk :: string

definition metric_tp :: "nat \<Rightarrow> nat option \<Rightarrow> int" where
  "metric_tp fnd ex = (case ex of Some e \<Rightarrow> min (int fnd) (int e) | None \<Rightarrow> int fnd)"

definition metric_fp :: "nat \<Rightarrow> nat option \<Rightarrow> int" where
  "metric_fp fnd ex = (case ex of Some e \<Rightarrow> max 0 (int fnd - int e) | None \<Rightarrow> 0)"

definition metric_fn :: "nat \<Rightarrow> nat option \<Rightarrow> int" where
  "metric_fn fnd ex = (case ex of Some e \<Rightarrow> max 0 (int e - int fnd) | None \<Rightarrow> 0)"

definition risk_level :: "nat option \<Rightarrow> int \<Rightarrow> int \<Rightarrow> rat \<Rightarrow> string" where
  "risk_level ex t f p =
     (if ex \<noteq> None then
        (if t = 0 \<and> f > 0 then ''Critical''
         else if t > 0 \<and> f = 0 then ''Low''
         else if p \<ge> binary64 (8 / 10) then ''Medium''
         else if p \<ge> 1 / 2 then ''High''
         else ''Critical'')
      else ''N/A'')"

text \<open>The body of the loop of \<open>_calculate_metrics\<close>, for one category.\<close>

definition calculate_metric :: "nat \<Rightarrow> nat option \<Rightarrow> error + metric_entry" where
  "calculate_metric fnd ex =
     (let t = metric_tp fnd ex; f = metric_fp fnd ex; n = metric_fn fnd ex in
      case (if t + f > 0 then int_truediv t (t + f) else Inr 0) of
        Inl e \<Rightarrow> Inl e
      | Inr p \<Rightarrow>
          (case (if t + n > 0 then int_truediv t (t + n) else Inr 0) of
             Inl e \<Rightarrow> Inl e
           | Inr r \<Rightarrow>
               (case (if binary64 (p + r) > 0
                      then float_truediv (binary64 (2 * binary64 (p * r))) (binary64 (p + r))
                      else Inr 0) of
                  Inl e \<Rightarrow> Inl e
                | Inr h \<Rightarrow>
                    Inr \<lparr>found = fnd, expected = ex, tp = t, fp = f, precision = p, recall = r,
                         f1 = h, risk = risk_level ex t f p\<rparr>)))"

text \<open>\<open>_calculate_metrics\<close>: an entry for every key of \<open>PII_HANDLERS\<close>, from
  \<open>summary['matches'].get(key, 0)\<close> and \<open>expected_counts.get(key, None)\<close>.\<close>

fun calculate_metrics_loop :: "(string \<rightharpoonup> nat) \<Rightarrow> (string \<rightharpoonup> nat) \<Rightarrow> string list
    \<Rightarrow> error + (string \<times> metric_entry) list" where
  "calculate_metrics_loop matches_of expected_counts [] = Inr []"
| "calculate_metrics_loop matches_of expected_counts (key # keys) =
     (case calculate_metric (case matches_of key of None \<Rightarrow> 0 | Some n \<Rightarrow> n) (expected_counts key) of
        Inl e \<Rightarrow> Inl e
      | Inr entry \<Rightarrow>
          (case calculate_metrics_loop matches_of expected_counts keys of
             Inl e \<Rightarrow> Inl e
           | Inr entries \<Rightarrow> Inr ((key, entry) # entries)))"

definition calculate_metrics :: "(string \<rightharpoonup> nat) \<Rightarrow> (string \<rightharpoonup> nat)
    \<Rightarrow> error + (string \<times> metric_entry) list" where
  "calculate_metrics matches_of expected_counts =
     calculate_metrics_loop matches_of expected_counts (map fst PII_HANDLERS)"

section \<open>Notions of the specification\<close>

text \<open>The keys of a call sequence in the order in which they are first seen.\<close>

definition see :: "'a list \<Rightarrow> 'a \<Rightarrow> 'a list" where
  "see ds k = (if k \<in> set ds then ds else ds @ [k])"

definition first_seen :: "'a list \<Rightarrow> 'a list" where
  "first_seen ks = foldl see [] ks"

text \<open>The position of a key in a list, and the alias of the key at that position.\<close>

definition pos_of :: "'a list \<Rightarrow> 'a \<Rightarrow> nat" where
  "pos_of ds k = length (takeWhile (\<lambda>x. x \<noteq> k) ds)"

definition alias_of :: "string list \<Rightarrow> string \<Rightarrow> string" where
  "alias_of ds k = ''user'' @ str_int (int (pos_of ds k) + 1)"

text \<open>The state of a pseudonymizer that has seen the distinct keys \<open>ds\<close>, in this order.\<close>

definition pinv :: "string list \<Rightarrow> pseudonymizer \<Rightarrow> bool" where
  "pinv ds p \<longleftrightarrow> distinct ds \<and> mapping p = map (\<lambda>k. (k, alias_of ds k)) ds \<and> counter p = int (length ds) + 1"

text \<open>The value of a string of decimal digits.\<close>

definition digits_val :: "string \<Rightarrow> nat" where
  "digits_val s = foldl (\<lambda>a c. 10 * a + (ord c - 48)) 0 s"

definition digit_value :: "char \<Rightarrow> nat" where
  "digit_value c = ord c - 48"


text \<open>The reverse of the encrypt strategy: base64 decoding, text decoding and the keyed
  transform with the same key.\<close>

definition reverse_encrypt :: "string \<Rightarrow> error + string" where
  "reverse_encrypt out =
     (case b64decode out of
        Inl e \<Rightarrow> Inl e
      | Inr bs \<Rightarrow>
          (case utf8_decode bs of
             Inl e \<Rightarrow> Inl e
           | Inr t \<Rightarrow> encrypt_decrypt t XOR_KEY))"

text \<open>
  The metrics as the specification words them. The first rule of an ordered list whose
  condition holds gives the risk level.
\<close>

fun first_rule :: "(bool \<times> string) list \<Rightarrow> string \<Rightarrow> string" where
  "first_rule [] otherwise = otherwise"
| "first_rule ((condition, level) # rules) otherwise =
     (if condition then level else first_rule rules otherwise)"

definition spec_tp :: "nat \<Rightarrow> nat option \<Rightarrow> int" where
  "spec_tp fnd ex = (case ex of None \<Rightarrow> int fnd | Some e \<Rightarrow> int (min fnd e))"

definition spec_fp :: "nat \<Rightarrow> nat option \<Rightarrow> int" where
  "spec_fp fnd ex = (case ex of None \<Rightarrow> 0 | Some e \<Rightarrow> int (fnd - e))"

definition spec_fn :: "nat \<Rightarrow> nat option \<Rightarrow> int" where
  "spec_fn fnd ex = (case ex of None \<Rightarrow> 0 | Some e \<Rightarrow> int (e - fnd))"

definition spec_ratio :: "int \<Rightarrow> int \<Rightarrow> rat" where
  "spec_ratio num den = (if den > 0 then binary64 (of_int num / of_int den) else 0)"

definition spec_f1 :: "rat \<Rightarrow> rat \<Rightarrow> rat" where
  "spec_f1 p r =
     (if binary64 (p + r) > 0 then binary64 (binary64 (2 * binary64 (p * r)) / binary64 (p + r))
      else 0)"

definition spec_risk :: "nat option \<Rightarrow> int \<Rightarrow> int \<Rightarrow> rat \<Rightarrow> string" where
  "spec_risk ex t f p =
     (case ex of
        None \<Rightarrow> ''N/A''
      | Some e \<Rightarrow>
          first_rule [(t = 0 \<and> f > 0, ''Critical''), (t > 0 \<and> f = 0, ''Low''),
                      (p \<ge> binary64 (8 / 10), ''Medium''), (p \<ge> 1 / 2, ''High'')] ''Critical'')"

text \<open>
  The Luhn sum of a sequence of digits given from the right: every second digit is doubled,
  9 is subtracted from a doubled value above 9, and all are added. \<open>dbl\<close> says whether the
  first digit of the sequence is a doubled one. The check digit of a payload makes the sum
  of the whole number a multiple of 10.
\<close>

fun luhn_sum :: "bool \<Rightarrow> nat list \<Rightarrow> nat" where
  "luhn_sum dbl [] = 0"
| "luhn_sum dbl (d # ds) =
     (if dbl then (if 2 * d > 9 then 2 * d - 9 else 2 * d) else d) + luhn_sum (\<not> dbl) ds"

definition luhn_check_digit :: "nat list \<Rightarrow> nat" where
  "luhn_check_digit payload = (10 - luhn_sum True (rev payload) mod 10) mod 10"

text \<open>
  The text that replaces a match under a strategy, given the text the partial strategy
  produces for it. \<open>keyed\<close> is the keyed transform with the fixed key.
\<close>

definition keyed :: "string \<Rightarrow> string" where
  "keyed text =
     map (\<lambda>(c, k). chr (ord c XOR ord k))
         (zip text (repeat XOR_KEY (length text div length XOR_KEY + 1)))"

definition mask_value :: "(bytes \<Rightarrow> string) \<Rightarrow> string \<Rightarrow> string \<Rightarrow> string \<Rightarrow> string \<Rightarrow> string
    \<Rightarrow> string" where
  "mask_value h strat mchar pii_type partial_text original =
     (if strat = ''partial'' then partial_text
      else if strat = ''full'' then repeat mchar (length original)
      else if strat = ''hash'' then h (utf8_encode original)
      else if strat = ''encrypt'' then b64encode (utf8_encode (keyed original))
      else if strat = ''redact'' then ''['' @ upper pii_type @ ''_REDACTED]''
      else original)"

text \<open>A match passes the checksum of its category.\<close>

definition aadhaar_valid :: "string \<Rightarrow> bool" where
  "aadhaar_valid matched =
     (length (filter is_ascii_digit matched) = 12 \<and> aadhaar_verhoeff (filter is_ascii_digit matched))"

definition card_valid :: "string \<Rightarrow> bool" where
  "card_valid matched = (luhn_checksum_ok (filter is_ascii_digit matched) = Inr True)"

text \<open>What replaces a match that passes, in the two handlers.\<close>

definition aadhaar_masked :: "(bytes \<Rightarrow> string) \<Rightarrow> maskconfig \<Rightarrow> string \<Rightarrow> string" where
  "aadhaar_masked h kwargs matched =
     mask_value h (get_strategy kwargs) (get_char kwargs) ''Aadhaar''
       (take 4 (filter is_ascii_digit matched) @ ''-'' @ repeat (get_char kwargs) 4 @ ''-''
        @ drop 8 (filter is_ascii_digit matched)) matched"

definition card_masked :: "(bytes \<Rightarrow> string) \<Rightarrow> maskconfig \<Rightarrow> string \<Rightarrow> string" where
  "card_masked h kwargs matched =
     mask_value h (get_strategy kwargs) (get_char kwargs) ''Credit Card''
       (repeat (get_char kwargs) 4 @ ''-'' @ repeat (get_char kwargs) 4 @ ''-''
        @ repeat (get_char kwargs) 4 @ ''-'' @ last_n 4 (filter is_ascii_digit matched)) matched"

text \<open>A text rebuilt from the matches of a scan, each match replaced by \<open>f\<close> of its text.\<close>

definition rebuild :: "(string \<Rightarrow> string) \<Rightarrow> (string \<times> py_match) list \<times> string \<Rightarrow> string" where
  "rebuild f scan = concat (map (\<lambda>(gap, m). gap @ f (group0 m)) (fst scan)) @ snd scan"

definition matched_texts :: "(string \<times> py_match) list \<times> string \<Rightarrow> string list" where
  "matched_texts scan = map (\<lambda>(gap, m). group0 m) (fst scan)"

text \<open>The domain of an address: the text after its last \<open>@\<close>.\<close>

definition domain_of :: "string \<Rightarrow> string" where
  "domain_of address = rev (takeWhile (\<lambda>c. c \<noteq> CHR ''@'') (rev address))"

text \<open>
  The address that a match holds for the email handler: its group 1, when the pattern has
  that group, the group took part in the match and its text contains an \<open>@\<close>. The
  replacement \<open>user@domain\<close> of such a match, and a text rebuilt from the matches of a
  scan, each match replaced by \<open>f\<close> of the match.
\<close>

definition address_of :: "py_match \<Rightarrow> string option" where
  "address_of m =
     (case match_group m 1 of
        Inr (Some g) \<Rightarrow> if CHR ''@'' \<in> set g then Some g else None
      | _ \<Rightarrow> None)"

definition user_at_domain :: "py_match \<Rightarrow> string" where
  "user_at_domain m = (case address_of m of Some g \<Rightarrow> ''user@'' @ domain_of g | None \<Rightarrow> group0 m)"

definition rebuild_by :: "(py_match \<Rightarrow> string) \<Rightarrow> (string \<times> py_match) list \<times> string \<Rightarrow> string" where
  "rebuild_by f scan = concat (map (\<lambda>(gap, m). gap @ f m) (fst scan)) @ snd scan"

text \<open>The entry of a run context under a key.\<close>

definition ctx_lookup :: "world \<Rightarrow> string \<Rightarrow> pyval option" where
  "ctx_lookup w key = (case ctx w of DictContext d \<Rightarrow> map_of d key | _ \<Rightarrow> None)"

text \<open>What is observed of a result: the value, the run context and the number of draws.\<close>

definition outcome :: "error + 'a \<times> world \<Rightarrow> error + 'a \<times> run_context \<times> nat" where
  "outcome r = (case r of Inl e \<Rightarrow> Inl e | Inr (x, w) \<Rightarrow> Inr (x, ctx w, drawn w))"

text \<open>The configuration that enables every category with the partial strategy, and the
  cell of the end-to-end scenario.\<close>

definition all_partial :: "string \<rightharpoonup> maskconfig" where
  "all_partial = (\<lambda>key. Some \<lparr>enabled = True, strategy = Some ''partial'', mask_char = Some ''*''\<rparr>)"

definition scenario_cell :: string where
  "scenario_cell = ''Contact John Smith at john.smith@example.com, phone +91-9876543210''"

text \<open>A category is disabled: its mask configuration is absent or has \<open>enabled\<close> false.\<close>

definition disabled :: "(string \<rightharpoonup> maskconfig) option \<Rightarrow> string \<Rightarrow> bool" where
  "disabled mask_configs key =
     (case get_opt mask_configs key of None \<Rightarrow> True | Some config \<Rightarrow> \<not> enabled config)"

text \<open>A table of handlers with the handler of one key replaced.\<close>

definition with_handler :: "string \<Rightarrow> handler \<Rightarrow> (string \<times> handler) list \<Rightarrow> (string \<times> handler) list" where
  "with_handler key other handlers = map (\<lambda>(k, hd). (k, if k = key then other else hd)) handlers"

text \<open>The text a match consumed between two matcher states.\<close>

definition consumed :: "mstate \<Rightarrow> mstate \<Rightarrow> string" where
  "consumed st st' = take (length (rest st) - length (rest st')) (rest st)"

section \<open>Characters and codecs\<close>

lemma ord_less_256: "ord c < 256"
  by (simp add: ord_def)

lemma chr_ord: "chr (ord c) = c"
  by (simp add: ord_def chr_def)

lemma ord_chr: "n < 256 \<Longrightarrow> ord (chr n) = n"
  by (simp add: ord_def chr_def)

lemma in_range_ord: "in_range lo hi c = (lo \<le> int (ord c) \<and> int (ord c) \<le> hi)"
  by (simp add: in_range_def ord_def of_nat_of_char)

lemma xor_less_256: "a < 256 \<Longrightarrow> b < 256 \<Longrightarrow> a XOR b < (256::nat)"
proof -
  assume "a < 256" "b < 256"
  then have "take_bit 8 a = a" "take_bit 8 b = b"
    by (simp_all add: take_bit_nat_eq_self_iff)
  then have "a XOR b = take_bit 8 (a XOR b)"
    by (simp add: take_bit_xor)
  also have "\<dots> < 2 ^ 8"
    by (rule take_bit_nat_less_exp)
  finally show ?thesis by simp
qed

lemma xor_xor_cancel: "(a XOR k) XOR k = (a::nat)"
  by (simp add: xor.assoc)

lemma xor_char_involution: "chr (ord (chr (ord c XOR ord k)) XOR ord k) = c"
  by (simp add: ord_chr xor_less_256 ord_less_256 xor_xor_cancel chr_ord)

lemma zip_xor_twice:
  "length xs \<le> length ks \<Longrightarrow>
   map (\<lambda>(c, k). chr (ord c XOR ord k)) (zip (map (\<lambda>(c, k). chr (ord c XOR ord k)) (zip xs ks)) ks) = xs"
proof (induction xs arbitrary: ks)
  case Nil
  show ?case by simp
next
  case (Cons x xs)
  then obtain k ks' where "ks = k # ks'" by (cases ks) auto
  with Cons show ?case by (simp add: xor_char_involution)
qed

lemma length_repeat: "length (repeat s n) = n * length s"
  by (induction n) (simp_all add: repeat_def)

lemma key_stream_covers:
  assumes "key \<noteq> []"
  shows "length text \<le> length (repeat key (length text div length key + 1))"
proof -
  from assms have "0 < length key" by simp
  then have "length text < (length text div length key + 1) * length key"
    using dividend_less_times_div [of "length key" "length text"] by (simp add: mult.commute)
  then show ?thesis by (simp add: length_repeat)
qed

lemma encrypt_decrypt_involution:
  assumes "key \<noteq> []"
  shows "\<exists>e. encrypt_decrypt text key = Inr e \<and> length e = length text
             \<and> encrypt_decrypt e key = Inr text"
proof -
  let ?ks = "repeat key (length text div length key + 1)"
  let ?e = "map (\<lambda>(c, k). chr (ord c XOR ord k)) (zip text ?ks)"
  have c: "length text \<le> length ?ks" by (rule key_stream_covers [OF assms])
  from assms have e: "encrypt_decrypt text key = Inr ?e" by (simp add: encrypt_decrypt_def)
  from c have l: "length ?e = length text" by simp
  from assms l have "encrypt_decrypt ?e key = Inr (map (\<lambda>(c, k). chr (ord c XOR ord k)) (zip ?e ?ks))"
    by (simp add: encrypt_decrypt_def)
  with zip_xor_twice [OF c] have "encrypt_decrypt ?e key = Inr text" by simp
  with e l show ?thesis by blast
qed

lemma utf8_decode_char:
  "utf8_decode (utf8_char c @ bs) = (case utf8_decode bs of Inl e \<Rightarrow> Inl e | Inr s \<Rightarrow> Inr (c # s))"
proof (cases "ord c < 128")
  case True
  then show ?thesis by (simp add: utf8_char_def)
next
  case False
  define hi where "hi = chr (192 + ord c div 64)"
  define lo where "lo = chr (128 + ord c mod 64)"
  have b: "ord c < 256" by (rule ord_less_256)
  from False b have d: "ord c div 64 = 2 \<or> ord c div 64 = 3" by linarith
  then have h: "ord hi = 192 + ord c div 64"
    unfolding hi_def by (intro ord_chr) linarith
  have l: "ord lo = 128 + ord c mod 64"
    unfolding lo_def by (intro ord_chr) simp
  from h d have h1: "\<not> ord hi < 128" "ord hi = 194 \<or> ord hi = 195" by linarith+
  from l have l1: "in_range 128 191 lo" by (simp add: in_range_ord)
  from h l have v: "(ord hi - 192) * 64 + (ord lo - 128) = ord c" by simp
  from False have u: "utf8_char c = [hi, lo]" by (simp add: utf8_char_def hi_def lo_def)
  show ?thesis
    unfolding u using h1 l1 by (simp add: v chr_ord split: sum.splits)
qed

lemma utf8_round_trip: "utf8_decode (utf8_encode s) = Inr s"
  by (induction s) (simp_all add: utf8_encode_def utf8_decode_char)

lemma ord_literals: "ord CHR ''+'' = 43" "ord CHR ''/'' = 47" "ord CHR ''='' = 61"
  by (simp_all add: ord_def)

lemma b64_index_char: "i < 64 \<Longrightarrow> b64_index (b64_char i) = Inr i"
  by (auto simp: b64_index_def b64_char_def in_range_ord ord_chr ord_literals)

lemma b64_char_not_pad: "i < 64 \<Longrightarrow> b64_char i \<noteq> CHR ''=''"
proof
  assume i: "i < 64" and "b64_char i = CHR ''=''"
  then have "b64_index (b64_char i) = b64_index CHR ''=''" by simp
  with i show False by (simp add: b64_index_char) (simp add: b64_index_def in_range_ord ord_literals)
qed

lemma sextet_bounds:
  assumes "a < 256" "b < 256"
  shows "sextet1 a < 64" "sextet2 a b < 64" "sextet3 a b < 64" "sextet4 a < 64"
proof -
  from assms have d: "a div 4 < 64" "b div 16 < 16" "b div 64 < 4" by simp_all
  have m: "a mod 4 < 4" "a mod 16 < 16" by simp_all
  from d show "sextet1 a < 64" by (simp add: sextet1_def)
  from d m show "sextet2 a b < 64" unfolding sextet2_def by linarith
  from d m show "sextet3 a b < 64" unfolding sextet3_def by linarith
  show "sextet4 a < 64" by (simp add: sextet4_def)
qed

lemma octets_of_sextets:
  assumes "a < 256" "b < 256" "c < 256"
  shows "octet1 (sextet1 a) (sextet2 a b) = a"
    "octet2 (sextet2 a b) (sextet3 b c) = b"
    "octet3 (sextet3 b c) (sextet4 c) = c"
proof -
  from assms have d: "b div 16 < 16" "c div 64 < 4" by simp_all
  from d have "(a mod 4 * 16 + b div 16) div 16 = a mod 4" by simp
  then show "octet1 (sextet1 a) (sextet2 a b) = a"
    by (simp add: octet1_def sextet1_def sextet2_def)
  from d have x: "(a mod 4 * 16 + b div 16) mod 16 = b div 16" by simp
  from d have y: "(b mod 16 * 4 + c div 64) div 4 = b mod 16" by simp
  from x y show "octet2 (sextet2 a b) (sextet3 b c) = b"
    by (simp add: octet2_def sextet2_def sextet3_def)
  from d have z: "(b mod 16 * 4 + c div 64) mod 4 = c div 64" by simp
  from z show "octet3 (sextet3 b c) (sextet4 c) = c"
    by (simp add: octet3_def sextet3_def sextet4_def)
qed

lemmas b64_group =
  sextet_bounds [OF ord_less_256 ord_less_256] sextet_bounds [OF ord_less_256, of 0, simplified]
  octets_of_sextets [OF ord_less_256 ord_less_256 ord_less_256]
  octets_of_sextets [OF ord_less_256 ord_less_256, of 0, simplified]
  octets_of_sextets [OF ord_less_256, of 0 0, simplified]

lemma b64_round_trip: "b64decode (b64encode bs) = Inr bs"
proof (induction bs rule: b64encode.induct)
  case 1
  show ?case by simp
next
  case (2 a)
  show ?case by (simp add: b64_index_char b64_group chr_ord)
next
  case (3 a b)
  show ?case by (simp add: b64_index_char b64_char_not_pad b64_group chr_ord)
next
  case (4 a b c bs)
  then show ?case by (simp add: b64_index_char b64_char_not_pad b64_group chr_ord)
qed

lemma digit_value_less: "is_ascii_digit c \<Longrightarrow> digit_value c < 10"
  by (auto simp: is_ascii_digit_def in_range_ord digit_value_def)

lemma XOR_KEY_nonempty: "XOR_KEY \<noteq> []"
  by (simp add: XOR_KEY_def)

section \<open>The pseudonymizer\<close>

lemma map_of_dict_set: "map_of (dict_set d k v) k' = (if k' = k then Some v else map_of d k')"
proof (cases "map_of d k")
  case None
  then show ?thesis by (simp add: dict_set_def map_add_def split: option.splits)
next
  case (Some a)
  have "map_of (map (\<lambda>(k', v'). if k' = k then (k', v) else (k', v')) d) k' =
        (if k' = k then (case map_of d k of None \<Rightarrow> None | Some _ \<Rightarrow> Some v) else map_of d k')"
    by (induction d) (auto split: option.splits)
  with Some show ?thesis by (simp add: dict_set_def)
qed


lemma digits_val_snoc: "digits_val (s @ [c]) = 10 * digits_val s + (ord c - 48)"
  by (simp add: digits_val_def)

lemma ord_chr_digit: "d < 10 \<Longrightarrow> ord (chr (48 + d)) = 48 + d"
  by (simp add: ord_def chr_def)

lemma digits_val_str_nat: "digits_val (str_nat n) = n"
proof (induction n rule: str_nat.induct)
  case (1 n)
  show ?case
  proof (cases "n < 10")
    case True
    then show ?thesis by (subst str_nat.simps) (simp add: digits_val_def ord_chr_digit)
  next
    case False
    then have "digits_val (str_nat n) = 10 * digits_val (str_nat (n div 10)) + (ord (chr (48 + n mod 10)) - 48)"
      by (subst str_nat.simps) (simp add: digits_val_snoc)
    also have "\<dots> = 10 * (n div 10) + n mod 10"
      using 1 False by (simp add: ord_chr_digit)
    finally show ?thesis by simp
  qed
qed

lemma str_nat_inj: "str_nat a = str_nat b \<Longrightarrow> a = b"
  by (metis digits_val_str_nat)

lemma str_int_inj_nonneg: "0 \<le> a \<Longrightarrow> 0 \<le> b \<Longrightarrow> str_int a = str_int b \<Longrightarrow> a = b"
  by (auto simp: str_int_def dest: str_nat_inj)

lemma pos_of_append_in: "k \<in> set ds \<Longrightarrow> pos_of (ds @ es) k = pos_of ds k"
  by (simp add: pos_of_def takeWhile_append1)


lemma pos_of_fresh: "k \<notin> set ds \<Longrightarrow> pos_of (ds @ [k]) k = length ds"
  unfolding pos_of_def by (induction ds) auto

lemma pos_of_nth: "distinct ds \<Longrightarrow> n < length ds \<Longrightarrow> pos_of ds (ds ! n) = n"
proof (induction ds arbitrary: n)
  case Nil
  then show ?case by simp
next
  case (Cons d ds)
  then show ?case by (cases n) (auto simp: pos_of_def)
qed

lemma pos_of_less: "k \<in> set ds \<Longrightarrow> pos_of ds k < length ds"
  unfolding pos_of_def by (induction ds) auto

lemma nth_pos_of: "k \<in> set ds \<Longrightarrow> ds ! pos_of ds k = k"
  unfolding pos_of_def by (induction ds) auto

lemma alias_of_inj: "a \<in> set ds \<Longrightarrow> b \<in> set ds \<Longrightarrow> alias_of ds a = alias_of ds b \<Longrightarrow> a = b"
proof -
  assume a: "a \<in> set ds" and b: "b \<in> set ds" and e: "alias_of ds a = alias_of ds b"
  from e have "str_int (int (pos_of ds a) + 1) = str_int (int (pos_of ds b) + 1)"
    by (simp add: alias_of_def)
  then have "int (pos_of ds a) + 1 = int (pos_of ds b) + 1"
    by (rule str_int_inj_nonneg [rotated 2]) simp_all
  then have "pos_of ds a = pos_of ds b" by simp
  with nth_pos_of [OF a] nth_pos_of [OF b] show "a = b" by metis
qed

lemma map_of_self_keys: "map_of (map (\<lambda>k. (k, f k)) ds) k = (if k \<in> set ds then Some (f k) else None)"
  by (induction ds) auto

lemma see_mapping:
  assumes "k \<notin> set ds"
  shows "map (\<lambda>x. (x, alias_of ds x)) ds @ [(k, ''user'' @ str_int (int (length ds) + 1))] =
         map (\<lambda>x. (x, alias_of (ds @ [k]) x)) (ds @ [k])"
  using assms by (simp add: alias_of_def pos_of_fresh pos_of_append_in)

lemma pseudonymize_step:
  assumes "pinv ds p"
  shows "\<exists>p'. pseudonymize p k = Inr (alias_of (see ds k) k, p') \<and> pinv (see ds k) p'"
proof (cases "k \<in> set ds")
  case True
  with assms show ?thesis
    by (simp add: pseudonymize_def pinv_def see_def map_of_self_keys)
next
  case False
  with assms have m: "map_of (mapping p) k = None"
    by (simp add: pinv_def map_of_self_keys)
  from assms False have d: "dict_set (mapping p) k (''user'' @ str_int (counter p)) =
      map (\<lambda>x. (x, alias_of (ds @ [k]) x)) (ds @ [k])"
    using see_mapping [OF False] m by (simp add: dict_set_def pinv_def)
  have l: "map_of (map (\<lambda>x. (x, alias_of (ds @ [k]) x)) (ds @ [k])) k = Some (alias_of (ds @ [k]) k)"
    by (simp only: map_of_self_keys) simp
  from assms False m d l show ?thesis
    by (simp add: pseudonymize_def pinv_def see_def Let_def)
qed

lemma foldl_see_prefix: "\<exists>es. foldl see ds ks = ds @ es"
proof (induction ks arbitrary: ds)
  case Nil
  show ?case by simp
next
  case (Cons k ks)
  from Cons [of "see ds k"] obtain es where "foldl see (see ds k) ks = see ds k @ es" ..
  moreover have "\<exists>fs. see ds k = ds @ fs" by (simp add: see_def)
  ultimately show ?case by auto
qed

lemma alias_of_foldl_see: "k \<in> set ds \<Longrightarrow> alias_of (foldl see ds ks) k = alias_of ds k"
  using foldl_see_prefix [of ds ks] by (auto simp: alias_of_def pos_of_append_in)

lemma set_foldl_see: "set (foldl see ds ks) = set ds \<union> set ks"
  by (induction ks arbitrary: ds) (auto simp: see_def)

lemma pseudonymize_calls_aliases:
  assumes "pinv ds p"
  shows "\<exists>p'. pseudonymize_calls p ks = Inr (map (alias_of (foldl see ds ks)) ks, p')
            \<and> pinv (foldl see ds ks) p'"
  using assms
proof (induction ks arbitrary: ds p)
  case Nil
  then show ?case by simp
next
  case (Cons k ks)
  from pseudonymize_step [OF Cons.prems, of k] obtain p1
    where s: "pseudonymize p k = Inr (alias_of (see ds k) k, p1)" and i: "pinv (see ds k) p1"
    by blast
  from Cons.IH [OF i] obtain p2
    where c: "pseudonymize_calls p1 ks = Inr (map (alias_of (foldl see (see ds k) ks)) ks, p2)"
      and j: "pinv (foldl see (see ds k) ks) p2"
    by blast
  have "k \<in> set (see ds k)" by (simp add: see_def)
  then have "alias_of (foldl see (see ds k) ks) k = alias_of (see ds k) k"
    by (rule alias_of_foldl_see)
  with s c j show ?case by simp
qed

lemma pinv_init: "pinv [] EmailPseudonymizer"
  by (simp add: pinv_def EmailPseudonymizer_def)

text \<open>
  Claim C6. On a fresh pseudonymizer, any sequence of \<open>pseudonymize\<close> calls returns
  normally; two calls return the same alias exactly when their keys are equal (so a repeated
  key keeps its alias and distinct keys get distinct aliases); and the key that is the
  \<open>n\<close>-th distinct one in first-seen order (counting from 0) receives the alias
  \<open>user\<close> followed by the decimal rendering of \<open>n + 1\<close>.
\<close>

theorem pseudonymize_first_seen_aliases:
  "\<exists>as p'. pseudonymize_calls EmailPseudonymizer ks = Inr (as, p') \<and> length as = length ks \<and>
     (\<forall>i<length ks. \<forall>j<length ks. (as ! i = as ! j) = (ks ! i = ks ! j)) \<and>
     (\<forall>i<length ks. \<forall>n<length (first_seen ks).
        ks ! i = first_seen ks ! n \<longrightarrow> as ! i = ''user'' @ str_int (int n + 1))"
proof -
  let ?D = "first_seen ks"
  from pseudonymize_calls_aliases [OF pinv_init, of ks] obtain p'
    where c: "pseudonymize_calls EmailPseudonymizer ks = Inr (map (alias_of ?D) ks, p')"
      and i: "pinv ?D p'"
    by (auto simp: first_seen_def)
  have s: "set ?D = set ks" by (simp add: first_seen_def set_foldl_see)
  from i have d: "distinct ?D" by (simp add: pinv_def)
  have a: "(map (alias_of ?D) ks ! i = map (alias_of ?D) ks ! j) = (ks ! i = ks ! j)"
    if "i < length ks" "j < length ks" for i j
    using that s alias_of_inj [of "ks ! i" ?D "ks ! j"] by auto
  have b: "map (alias_of ?D) ks ! i = ''user'' @ str_int (int n + 1)"
    if "i < length ks" "n < length ?D" "ks ! i = ?D ! n" for i n
    using that pos_of_nth [OF d, of n] by (simp add: alias_of_def)
  from c a b show ?thesis by auto
qed

theorem pseudonymize_first_seen_aliases_witness:
  "\<exists>as p'. pseudonymize_calls EmailPseudonymizer [''bob'', ''al'', ''bob'', ''cy''] = Inr (as, p')
     \<and> as ! 0 = as ! 2 \<and> as ! 0 \<noteq> as ! 1 \<and> as ! 3 = ''user3''"
proof -
  let ?ks = "[''bob'', ''al'', ''bob'', ''cy'']"
  have f: "first_seen ?ks = [''bob'', ''al'', ''cy'']"
    by (simp add: first_seen_def see_def)
  have s: "str_int 3 = ''3''"
    by code_simp
  from pseudonymize_first_seen_aliases [of ?ks] obtain as p'
    where c: "pseudonymize_calls EmailPseudonymizer ?ks = Inr (as, p')"
      and e: "\<forall>i<length ?ks. \<forall>j<length ?ks. (as ! i = as ! j) = (?ks ! i = ?ks ! j)"
      and n: "\<forall>i<length ?ks. \<forall>n<length (first_seen ?ks).
                ?ks ! i = first_seen ?ks ! n \<longrightarrow> as ! i = ''user'' @ str_int (int n + 1)"
    by blast
  from e have "(as ! 0 = as ! 2) = (?ks ! 0 = ?ks ! 2)" by simp
  then have x: "as ! 0 = as ! 2" by simp
  from e have "(as ! 0 = as ! 1) = (?ks ! 0 = ?ks ! 1)" by simp
  then have y: "as ! 0 \<noteq> as ! 1" by simp
  from n have "3 < length ?ks \<longrightarrow> 2 < length (first_seen ?ks) \<longrightarrow>
      ?ks ! 3 = first_seen ?ks ! 2 \<longrightarrow> as ! 3 = ''user'' @ str_int (int 2 + 1)"
    by blast
  then have z: "as ! 3 = ''user3''" by (simp add: f s)
  from c x y z show ?thesis by blast
qed

section \<open>The Verhoeff validator\<close>











section \<open>The encrypt strategy\<close>

lemma reverse_encrypt_encrypt:
  assumes "encrypt_decrypt text XOR_KEY = Inr e"
  shows "reverse_encrypt (b64encode (utf8_encode e)) = Inr text"
proof -
  from encrypt_decrypt_involution [OF XOR_KEY_nonempty, of "text"] assms
  have "encrypt_decrypt e XOR_KEY = Inr text" by auto
  then show ?thesis by (simp add: reverse_encrypt_def b64_round_trip utf8_round_trip)
qed

text \<open>
  Claim C8. Under the encrypt strategy a match is replaced, without error and without a
  change of state, by a string from which base64 decoding, text decoding and the keyed
  transform with the same key recover the matched text; the keyed transform with the fixed
  key undoes itself, and base64 decoding undoes base64 encoding.
\<close>

theorem encrypt_strategy_round_trip:
  "(\<exists>out. apply_mask h m ''encrypt'' mchar pii_type partial_mask_func \<sigma> = Inr (out, \<sigma>)
          \<and> reverse_encrypt out = Inr (group0 m))
   \<and> (\<exists>e. encrypt_decrypt text XOR_KEY = Inr e \<and> encrypt_decrypt e XOR_KEY = Inr text)
   \<and> b64decode (b64encode bs) = Inr bs"
proof -
  from encrypt_decrypt_involution [OF XOR_KEY_nonempty, of "group0 m"] obtain e
    where e: "encrypt_decrypt (group0 m) XOR_KEY = Inr e" by blast
  then have "apply_mask h m ''encrypt'' mchar pii_type partial_mask_func \<sigma>
      = Inr (b64encode (utf8_encode e), \<sigma>)"
    by (simp add: apply_mask_def)
  with reverse_encrypt_encrypt [OF e]
  have a: "\<exists>out. apply_mask h m ''encrypt'' mchar pii_type partial_mask_func \<sigma> = Inr (out, \<sigma>)
          \<and> reverse_encrypt out = Inr (group0 m)" by blast
  from encrypt_decrypt_involution [OF XOR_KEY_nonempty, of "text"]
  have b: "\<exists>e. encrypt_decrypt text XOR_KEY = Inr e \<and> encrypt_decrypt e XOR_KEY = Inr text" by blast
  from a b b64_round_trip show ?thesis by blast
qed

theorem encrypt_strategy_round_trip_witness:
  "apply_mask (\<lambda>b. []) \<lparr>group0 = ''9876543210'', captures = [], ngroups = 0\<rparr> ''encrypt'' ''*'' ''Phone''
      (\<lambda>m s. Inr ([], s)) () = Inr (''YFdCRGZRUEBURA=='', ())
   \<and> reverse_encrypt ''YFdCRGZRUEBURA=='' = Inr ''9876543210''"
proof -
  let ?m = "\<lparr>group0 = ''9876543210'', captures = [], ngroups = 0\<rparr>"
  have c: "apply_mask (\<lambda>b. []) ?m ''encrypt'' ''*'' ''Phone'' (\<lambda>m s. Inr ([], s)) ()
      = Inr (''YFdCRGZRUEBURA=='', ())"
    by code_simp
  from encrypt_strategy_round_trip [of "\<lambda>b. []" ?m "''*''" "''Phone''" "\<lambda>m s. Inr ([], s)" "()"]
  obtain out where o: "apply_mask (\<lambda>b. []) ?m ''encrypt'' ''*'' ''Phone'' (\<lambda>m s. Inr ([], s)) () = Inr (out, ())"
    and r: "reverse_encrypt out = Inr (group0 ?m)"
    by blast
  from o c have "out = ''YFdCRGZRUEBURA==''" by simp
  with r c show ?thesis by simp
qed

section \<open>Metrics\<close>

lemma metric_counts_spec:
  "metric_tp fnd ex = spec_tp fnd ex" "metric_fp fnd ex = spec_fp fnd ex"
  "metric_fn fnd ex = spec_fn fnd ex"
  by (auto simp: metric_tp_def spec_tp_def metric_fp_def spec_fp_def metric_fn_def spec_fn_def
      split: option.splits)

lemma risk_level_spec: "risk_level ex t f p = spec_risk ex t f p"
  by (cases ex) (simp_all add: risk_level_def spec_risk_def)

lemma metrics_example_all_found:
  "calculate_metric 10 (Some 10) =
     Inr \<lparr>found = 10, expected = Some 10, tp = 10, fp = 0, precision = 1, recall = 1, f1 = 1,
          risk = ''Low''\<rparr>"
  by code_simp

lemma metrics_example_none_expected:
  "calculate_metric 10 (Some 0) =
     Inr \<lparr>found = 10, expected = Some 0, tp = 0, fp = 10, precision = 0, recall = 0, f1 = 0,
          risk = ''Critical''\<rparr>"
  by code_simp

text \<open>
  Claim C2. For every found count and every optional expected count the entry is computed
  without error and is the one of the specification: \<open>tp\<close>, \<open>fp\<close> and \<open>fn\<close> by minimum and
  truncated differences, precision, recall and F1 by the (floating-point) quotients with
  0.0 for a zero denominator, and the risk level by the first of the ordered rules that
  applies, \<open>N/A\<close> without an expected count. The two examples of the claim are evaluated.
\<close>

theorem metrics_follow_specification:
  "calculate_metric fnd ex =
     Inr \<lparr>found = fnd, expected = ex, tp = spec_tp fnd ex, fp = spec_fp fnd ex,
          precision = spec_ratio (spec_tp fnd ex) (spec_tp fnd ex + spec_fp fnd ex),
          recall = spec_ratio (spec_tp fnd ex) (spec_tp fnd ex + spec_fn fnd ex),
          f1 = spec_f1 (spec_ratio (spec_tp fnd ex) (spec_tp fnd ex + spec_fp fnd ex))
                 (spec_ratio (spec_tp fnd ex) (spec_tp fnd ex + spec_fn fnd ex)),
          risk = spec_risk ex (spec_tp fnd ex) (spec_fp fnd ex)
                   (spec_ratio (spec_tp fnd ex) (spec_tp fnd ex + spec_fp fnd ex))\<rparr>
   \<and> metric_fn fnd ex = spec_fn fnd ex
   \<and> calculate_metric 10 (Some 10) =
     Inr \<lparr>found = 10, expected = Some 10, tp = 10, fp = 0, precision = 1, recall = 1, f1 = 1,
          risk = ''Low''\<rparr>
   \<and> calculate_metric 10 (Some 0) =
     Inr \<lparr>found = 10, expected = Some 0, tp = 0, fp = 10, precision = 0, recall = 0, f1 = 0,
          risk = ''Critical''\<rparr>"
proof -
  have "calculate_metric fnd ex =
     Inr \<lparr>found = fnd, expected = ex, tp = spec_tp fnd ex, fp = spec_fp fnd ex,
          precision = spec_ratio (spec_tp fnd ex) (spec_tp fnd ex + spec_fp fnd ex),
          recall = spec_ratio (spec_tp fnd ex) (spec_tp fnd ex + spec_fn fnd ex),
          f1 = spec_f1 (spec_ratio (spec_tp fnd ex) (spec_tp fnd ex + spec_fp fnd ex))
                 (spec_ratio (spec_tp fnd ex) (spec_tp fnd ex + spec_fn fnd ex)),
          risk = spec_risk ex (spec_tp fnd ex) (spec_fp fnd ex)
                   (spec_ratio (spec_tp fnd ex) (spec_tp fnd ex + spec_fp fnd ex))\<rparr>"
    unfolding calculate_metric_def metric_counts_spec risk_level_spec Let_def
    by (simp add: spec_ratio_def spec_f1_def int_truediv_def float_truediv_def)
  with metric_counts_spec(3) metrics_example_all_found metrics_example_none_expected
  show ?thesis by blast
qed

theorem metrics_follow_specification_witness:
  "calculate_metric 6 (Some 10) =
     Inr \<lparr>found = 6, expected = Some 10, tp = 6, fp = 0, precision = 1,
          recall = 5404319552844595 / 9007199254740992,
          f1 = 6755399441055743 / 9007199254740992, risk = ''Low''\<rparr>
   \<and> metric_fn 6 (Some 10) = 4"
proof -
  have t: "spec_tp 6 (Some 10) = 6" "spec_fp 6 (Some 10) = 0" "spec_fn 6 (Some 10) = 4"
    by (simp_all add: spec_tp_def spec_fp_def spec_fn_def)
  have p: "spec_ratio 6 (6 + 0) = 1"
    by code_simp
  have r: "spec_ratio 6 (6 + 4) = 5404319552844595 / 9007199254740992"
    by code_simp
  have h: "spec_f1 1 (5404319552844595 / 9007199254740992) = 6755399441055743 / 9007199254740992"
    by code_simp
  have k: "spec_risk (Some 10) 6 0 1 = ''Low''"
    by (simp add: spec_risk_def)
  from metrics_follow_specification [of 6 "Some 10"] show ?thesis
    by (simp only: t p r h k)
qed

section \<open>The Luhn validator\<close>

lemma luhn_sum_snoc:
  "luhn_sum b (xs @ [d]) =
     luhn_sum b xs + (if b \<noteq> odd (length xs) then (if 2 * d > 9 then 2 * d - 9 else 2 * d) else d)"
proof (induction xs arbitrary: b)
  case Nil
  show ?case by simp
next
  case (Cons x xs)
  show ?case
    by (simp only: append_Cons luhn_sum.simps Cons.IH list.size) simp
qed

lemma luhn_loop_sum:
  "\<forall>d \<in> set ds. d < 10 \<Longrightarrow> (i + length ds) mod 2 = p \<Longrightarrow>
   luhn_loop p i ds tot = tot + luhn_sum False (rev ds)"
proof (induction ds arbitrary: i tot)
  case Nil
  show ?case by simp
next
  case (Cons d ds)
  from Cons.prems have d: "d < 10" and r: "\<forall>x \<in> set ds. x < 10" by simp_all
  from Cons.prems have p: "(Suc i + length ds) mod 2 = p" by simp
  have "(i mod 2 = (i + 1 + n) mod 2) = (n mod 2 = 1)" for n :: nat
    by presburger
  from this [of "length ds"] p have e: "(i mod 2 = p) = odd (length ds)"
    by (simp add: odd_iff_mod_2_eq_one)
  from d have u: "\<not> d > 9" by simp
  show ?case
    using Cons.IH [OF r p] d e by (simp add: luhn_sum_snoc Let_def mult.commute)
qed

lemma ints_of_digits: "\<forall>c \<in> set s. is_ascii_digit c \<Longrightarrow> ints_of s = Inr (map digit_value s)"
  by (induction s) (simp_all add: int_of_char_def digit_value_def)

lemma luhn_checksum_ok_decimal:
  assumes "\<forall>c \<in> set number. isdigit c \<longrightarrow> is_ascii_digit c"
  shows "luhn_checksum_ok number =
     Inr (13 \<le> length (filter is_ascii_digit number) \<and> length (filter is_ascii_digit number) \<le> 19
          \<and> luhn_sum False (rev (map digit_value (filter is_ascii_digit number))) mod 10 = 0)"
proof -
  let ?ds = "map digit_value (filter is_ascii_digit number)"
  have "is_ascii_digit c \<Longrightarrow> isdigit c" for c
    by (simp add: is_ascii_digit_def isdigit_def)
  with assms have f: "filter isdigit number = filter is_ascii_digit number"
    by (intro filter_cong) auto
  have i: "ints_of (filter is_ascii_digit number) = Inr ?ds"
    by (rule ints_of_digits) simp
  have b: "\<forall>d \<in> set ?ds. d < 10"
    by (auto simp: digit_value_less)
  have "luhn_loop (length ?ds mod 2) 0 ?ds 0 = 0 + luhn_sum False (rev ?ds)"
    by (rule luhn_loop_sum [OF b]) simp
  with f i show ?thesis by (auto simp: luhn_checksum_ok_def)
qed

lemma luhn_check_digit_accepted:
  "luhn_sum False (rev (payload @ [luhn_check_digit payload])) mod 10 = 0"
proof -
  define s where "s = luhn_sum True (rev payload)"
  obtain q r where s: "s = 10 * q + r" and r: "r < 10" and m: "s mod 10 = r"
    by (metis mod_less_divisor mult_div_mod_eq zero_less_numeral)
  from r have "(10 - r) + (10 * q + r) = 10 * (q + 1)" by simp
  then have "((10 - r) + (10 * q + r)) mod 10 = 0" by simp
  then have "((10 - r) mod 10 + (10 * q + r)) mod 10 = 0" by (simp only: mod_add_left_eq)
  then have "((10 - s mod 10) mod 10 + s) mod 10 = 0" by (simp only: m s [symmetric])
  then show ?thesis by (simp add: luhn_check_digit_def s_def)
qed

lemma digit_char_properties:
  assumes "d < 10"
  shows "is_ascii_digit (chr (48 + d))" "digit_value (chr (48 + d)) = d"
  using assms by (simp_all add: is_ascii_digit_def in_range_ord digit_value_def ord_chr)

lemma luhn_constructed_accepted:
  assumes "\<forall>d \<in> set payload. d < 10" "12 \<le> length payload" "length payload \<le> 18"
  shows "luhn_checksum_ok (map (\<lambda>d. chr (48 + d)) (payload @ [luhn_check_digit payload])) = Inr True"
proof -
  let ?ds = "payload @ [luhn_check_digit payload]"
  let ?s = "map (\<lambda>d. chr (48 + d)) ?ds"
  have c: "luhn_check_digit payload < 10" by (simp add: luhn_check_digit_def)
  with assms(1) have b: "\<forall>d \<in> set ?ds. d < 10" by simp
  then have a: "\<forall>x \<in> set ?s. is_ascii_digit x"
    by (auto simp: digit_char_properties simp del: map_append)
  then have f: "filter is_ascii_digit ?s = ?s" by (simp only: filter_True)
  have "map digit_value (map (\<lambda>d. chr (48 + d)) xs) = xs" if "\<forall>d \<in> set xs. d < 10" for xs
    using that by (induction xs) (simp_all add: digit_char_properties)
  from this [OF b] have v: "map digit_value ?s = ?ds" .
  from a have "\<forall>x \<in> set ?s. isdigit x \<longrightarrow> is_ascii_digit x" by blast
  from luhn_checksum_ok_decimal [OF this] assms(2,3) luhn_check_digit_accepted [of payload]
  show ?thesis unfolding f v by simp
qed

text \<open>
  Claim C7 holds for the strings in which \<open>str.isdigit\<close> accepts decimal digits only. It
  fails on the others: the superscript two is a digit for \<open>str.isdigit\<close> and not for
  \<open>int\<close>, and the validator raises instead of returning false.
\<close>

theorem luhn_raises_on_superscript_digit:
  "luhn_checksum_ok [CHR 0xB2] = Inl ValueError"
  by (simp add: luhn_checksum_ok_def isdigit_def in_range_def int_of_char_def is_ascii_digit_def)

section \<open>Scanning and substitution\<close>

lemma re_scan_None: "search r adv p s = None \<Longrightarrow> re_scan r adv p s = ([], s)"
  by (simp add: re_scan.simps)

lemma re_scan_Some:
  "search r adv p s = Some (b, n, g, q) \<Longrightarrow>
   re_scan r adv p s =
     ((take b s, \<lparr>group0 = take n (drop b s), captures = g, ngroups = rx_groups r\<rparr>)
        # fst (re_scan r (n = 0) q (drop (b + n) s)),
      snd (re_scan r (n = 0) q (drop (b + n) s)))"
  by (subst re_scan.simps) (simp add: case_prod_beta)

text \<open>The gaps and the matches of a scan, in order, make up the text.\<close>

lemma re_scan_reconstruct: "rebuild (\<lambda>g. g) (re_scan r adv p s) = s"
proof (induction r adv p s rule: re_scan.induct)
  case (1 r adv p s)
  show ?case
  proof (cases "search r adv p s")
    case None
    then show ?thesis by (simp add: re_scan_None rebuild_def)
  next
    case (Some x)
    obtain b n g q where x: "x = (b, n, g, q)" by (cases x)
    from 1 [OF Some, of b "(n, g, q)" n "(g, q)" g q] x
    have ih: "rebuild (\<lambda>g. g) (re_scan r (n = 0) q (drop (b + n) s)) = drop (b + n) s" by simp
    have "take b s @ take n (drop b s) @ drop (b + n) s = s"
      by (metis append_take_drop_id drop_drop add.commute)
    with ih Some x show ?thesis
      by (simp add: re_scan_Some rebuild_def)
  qed
qed

lemma re_sub_fold_counting:
  assumes "\<And>m c. repl m (c, w) = Inr (f (group0 m), (if ok (group0 m) then c + 1 else c, w))"
  shows "re_sub_fold repl ms tail (c, w) =
     Inr (rebuild f (ms, tail), (c + length (filter ok (matched_texts (ms, tail))), w))"
proof (induction ms arbitrary: c)
  case Nil
  show ?case by (simp add: rebuild_def matched_texts_def)
next
  case (Cons gm ms)
  obtain gap m where gm: "gm = (gap, m)" by (cases gm)
  show ?case
    unfolding gm using Cons [of "if ok (group0 m) then c + 1 else c"]
    by (simp add: assms rebuild_def matched_texts_def)
qed

lemma re_sub_fold_pure:
  assumes "\<And>m. repl m \<sigma> = Inr (f (group0 m), \<sigma>)"
  shows "re_sub_fold repl ms tail \<sigma> = Inr (rebuild f (ms, tail), \<sigma>)"
proof (induction ms)
  case Nil
  show ?case by (simp add: rebuild_def)
next
  case (Cons gm ms)
  then show ?case by (cases gm) (simp add: assms rebuild_def)
qed

lemma re_sub_fold_invariant:
  assumes "\<And>m \<sigma> t \<sigma>'. repl m \<sigma> = Inr (t, \<sigma>') \<Longrightarrow> I \<sigma>' = I \<sigma>"
    and "re_sub_fold repl ms tail \<sigma> = Inr (out, \<sigma>')"
  shows "I \<sigma>' = I \<sigma>"
  using assms(2)
proof (induction ms arbitrary: \<sigma> out)
  case Nil
  then show ?case by simp
next
  case (Cons gm ms)
  obtain gap m where gm: "gm = (gap, m)" by (cases gm)
  from Cons.prems obtain t \<sigma>1 out1 where r: "repl m \<sigma> = Inr (t, \<sigma>1)"
    and f: "re_sub_fold repl ms tail \<sigma>1 = Inr (out1, \<sigma>')"
    unfolding gm by (auto split: sum.splits)
  from Cons.IH [OF f] assms(1) [OF r] show ?case by simp
qed

lemma encrypt_decrypt_keyed: "encrypt_decrypt text XOR_KEY = Inr (keyed text)"
  by (simp add: encrypt_decrypt_def keyed_def XOR_KEY_nonempty)

lemma apply_mask_pure:
  assumes "partial_mask_func m \<sigma> = Inr (t, \<sigma>)"
  shows "apply_mask h m strat mchar pii_type partial_mask_func \<sigma> =
     Inr (mask_value h strat mchar pii_type t (group0 m), \<sigma>)"
  using assms by (simp add: apply_mask_def mask_value_def encrypt_decrypt_keyed)

section \<open>Matches that fail the checksum\<close>

lemma luhn_checksum_ok_digits:
  "\<exists>ok. luhn_checksum_ok (filter is_ascii_digit s) = Inr ok"
proof -
  have "\<forall>c \<in> set (filter is_ascii_digit s). isdigit c \<longrightarrow> is_ascii_digit c" by simp
  from luhn_checksum_ok_decimal [OF this] show ?thesis by blast
qed

lemma aadhaar_repl_counting:
  "aadhaar_repl h kwargs m (c, w) =
     Inr ((\<lambda>g. if aadhaar_valid g then aadhaar_masked h kwargs g else g) (group0 m),
          (if aadhaar_valid (group0 m) then c + 1 else c, w))"
proof (cases "aadhaar_valid (group0 m)")
  case True
  then show ?thesis
    by (simp add: aadhaar_repl_def aadhaar_valid_def aadhaar_masked_def Let_def
        apply_mask_pure [OF aadhaar_partial_def])
next
  case False
  then show ?thesis
    by (auto simp: aadhaar_repl_def aadhaar_valid_def Let_def)
qed

lemma credit_card_repl_counting:
  "credit_card_repl h kwargs m (c, w) =
     Inr ((\<lambda>g. if card_valid g then card_masked h kwargs g else g) (group0 m),
          (if card_valid (group0 m) then c + 1 else c, w))"
proof -
  from luhn_checksum_ok_digits [of "group0 m"] obtain ok
    where ok: "luhn_checksum_ok (filter is_ascii_digit (group0 m)) = Inr ok" ..
  show ?thesis
  proof (cases ok)
    case True
    with ok show ?thesis
      by (simp add: credit_card_repl_def card_valid_def card_masked_def Let_def
          apply_mask_pure [OF credit_card_partial_def])
  next
    case False
    with ok show ?thesis
      by (simp add: credit_card_repl_def card_valid_def Let_def)
  qed
qed

text \<open>
  Claim C3. For every text, pattern override, strategy and mask character, \<open>mask_aadhaar\<close>
  and \<open>mask_credit_cards\<close> return without error and leave the world as it is. The text
  they return is the input with every match that passes the checksum replaced by its mask
  and every other match replaced by itself (the gaps and the matches of the scan make up the
  input), and the count they return is the number of matches that pass.
\<close>

theorem checksum_failures_pass_through:
  "rebuild (\<lambda>g. g) (re_scan (pattern_or pattern AADHAAR_PATTERN) False None text) = text
   \<and> mask_aadhaar h text pattern kwargs w =
       Inr ((rebuild (\<lambda>g. if aadhaar_valid g then aadhaar_masked h kwargs g else g)
               (re_scan (pattern_or pattern AADHAAR_PATTERN) False None text),
             length (filter aadhaar_valid
               (matched_texts (re_scan (pattern_or pattern AADHAAR_PATTERN) False None text)))), w)
   \<and> rebuild (\<lambda>g. g) (re_scan (pattern_or pattern CREDIT_CARD_PATTERN) False None text) = text
   \<and> mask_credit_cards h text pattern kwargs w =
       Inr ((rebuild (\<lambda>g. if card_valid g then card_masked h kwargs g else g)
               (re_scan (pattern_or pattern CREDIT_CARD_PATTERN) False None text),
             length (filter card_valid
               (matched_texts (re_scan (pattern_or pattern CREDIT_CARD_PATTERN) False None text)))), w)"
proof -
  have a: "mask_aadhaar h text pattern kwargs w =
       Inr ((rebuild (\<lambda>g. if aadhaar_valid g then aadhaar_masked h kwargs g else g)
               (re_scan (pattern_or pattern AADHAAR_PATTERN) False None text),
             length (filter aadhaar_valid
               (matched_texts (re_scan (pattern_or pattern AADHAAR_PATTERN) False None text)))), w)"
    unfolding mask_aadhaar_def re_sub_def
    by (cases "re_scan (pattern_or pattern AADHAAR_PATTERN) False None text")
      (simp add: re_sub_fold_counting [of "aadhaar_repl h kwargs", OF aadhaar_repl_counting])
  have c: "mask_credit_cards h text pattern kwargs w =
       Inr ((rebuild (\<lambda>g. if card_valid g then card_masked h kwargs g else g)
               (re_scan (pattern_or pattern CREDIT_CARD_PATTERN) False None text),
             length (filter card_valid
               (matched_texts (re_scan (pattern_or pattern CREDIT_CARD_PATTERN) False None text)))), w)"
    unfolding mask_credit_cards_def re_sub_def
    by (cases "re_scan (pattern_or pattern CREDIT_CARD_PATTERN) False None text")
      (simp add: re_sub_fold_counting [of "credit_card_repl h kwargs", OF credit_card_repl_counting])
  from a c re_scan_reconstruct show ?thesis by simp
qed

theorem checksum_failures_pass_through_witness:
  "mask_aadhaar (\<lambda>b. []) ''2345 6789 0128 2345 6789 0124'' None
      \<lparr>enabled = True, strategy = Some ''partial'', mask_char = Some ''*''\<rparr>
      \<lparr>ctx = NoContext, rng = (\<lambda>i. 0), drawn = 0\<rparr>
    = Inr ((''2345-****-0128 2345 6789 0124'', 1), \<lparr>ctx = NoContext, rng = (\<lambda>i. 0), drawn = 0\<rparr>)"
proof -
  let ?k = "\<lparr>enabled = True, strategy = Some ''partial'', mask_char = Some ''*''\<rparr>"
  have s: "re_scan (pattern_or None AADHAAR_PATTERN) False None ''2345 6789 0128 2345 6789 0124'' =
      ([([], \<lparr>group0 = ''2345 6789 0128'', captures = [], ngroups = 0\<rparr>),
        ('' '', \<lparr>group0 = ''2345 6789 0124'', captures = [], ngroups = 0\<rparr>)], [])"
    by code_simp
  have v: "aadhaar_valid ''2345 6789 0128''"
    by code_simp
  have n: "\<not> aadhaar_valid ''2345 6789 0124''"
    by code_simp
  have m: "aadhaar_masked (\<lambda>b. []) ?k ''2345 6789 0128'' = ''2345-****-0128''"
    by code_simp
  from checksum_failures_pass_through [of None "''2345 6789 0128 2345 6789 0124''" "\<lambda>b. []" ?k
      "\<lparr>ctx = NoContext, rng = (\<lambda>i. 0), drawn = 0\<rparr>"]
  show ?thesis by (simp add: s v n m rebuild_def matched_texts_def)
qed

section \<open>Disabled categories\<close>

lemma disabled_config: "disabled mask_configs key = (\<not> enabled (config_for mask_configs key))"
  by (simp add: disabled_def config_for_def split: option.splits)

lemma process_key_disabled:
  "disabled mask_configs key \<Longrightarrow> process_key h patterns mask_configs (key, handler) st = Inr st"
  by (cases st) (simp add: process_key_def disabled_config)

lemma process_key_other_count:
  assumes "process_key h patterns mask_configs (k, handler) (text, counts, w) = Inr (text', counts', w')"
    and "k \<noteq> key"
  shows "map_of counts' key = map_of counts key"
  using assms
  by (auto simp: process_key_def Let_def map_of_dict_set split: if_splits sum.splits option.splits)

lemma process_keys_disabled_count:
  assumes "disabled mask_configs key"
  shows "process_keys h patterns mask_configs khs (t0, counts, w) = Inr (t', counts', w')
         \<Longrightarrow> map_of counts' key = map_of counts key"
proof (induction khs arbitrary: t0 counts w)
  case Nil
  then show ?case by simp
next
  case (Cons kh khs)
  obtain k handler where kh: "kh = (k, handler)" by (cases kh)
  from Cons.prems obtain t1 c1 w1
    where s: "process_key h patterns mask_configs (k, handler) (t0, counts, w) = Inr (t1, c1, w1)"
      and r: "process_keys h patterns mask_configs khs (t1, c1, w1) = Inr (t', counts', w')"
    unfolding kh by (auto split: sum.splits)
  have "map_of c1 key = map_of counts key"
  proof (cases "k = key")
    case True
    with s process_key_disabled [OF assms, of h patterns handler "(t0, counts, w)"]
    show ?thesis by simp
  next
    case False
    from process_key_other_count [OF s False] show ?thesis .
  qed
  with Cons.IH [OF r] show ?case by simp
qed

lemma process_keys_all_disabled:
  "\<forall>key. disabled mask_configs key \<Longrightarrow> process_keys h patterns mask_configs khs st = Inr st"
proof (induction khs)
  case Nil
  show ?case by simp
next
  case (Cons kh khs)
  then show ?case by (cases kh) (simp add: process_key_disabled)
qed

lemma process_keys_with_handler:
  assumes "disabled mask_configs key"
  shows "process_keys h patterns mask_configs (with_handler key other khs) st =
         process_keys h patterns mask_configs khs st"
proof (induction khs arbitrary: st)
  case Nil
  show ?case by (simp add: with_handler_def)
next
  case (Cons kh khs)
  obtain k handler where kh: "kh = (k, handler)" by (cases kh)
  have "process_key h patterns mask_configs (k, if k = key then other else handler) st =
        process_key h patterns mask_configs (k, handler) st"
    using process_key_disabled [OF assms] by (cases "k = key") simp_all
  with Cons show ?case
    unfolding kh by (simp add: with_handler_def split: sum.splits)
qed

lemma with_handler_keys: "map (\<lambda>kh. (fst kh, 0::nat)) (with_handler key other khs) = map (\<lambda>kh. (fst kh, 0)) khs"
  by (induction khs) (auto simp: with_handler_def)

lemma initial_count:
  "key \<in> fst ` set khs \<Longrightarrow> map_of (map (\<lambda>kh. (fst kh, 0::nat)) khs) key = Some 0"
  by (induction khs) auto

text \<open>
  Claim C9. For a category that is disabled (its mask configuration has \<open>enabled\<close> false,
  or there is none), the round of the loop of \<open>process_text\<close> leaves the text, the counts
  and the world as they are, whatever the handler; the count of the category in the result
  is zero; and the result is the same with any other handler in the place of the
  category's, so the handler takes no part. With every category disabled, \<open>process_text\<close>
  returns the input text and zero for every category, and the world as it is.
\<close>

theorem disabled_category_is_skipped:
  "(disabled mask_configs key \<longrightarrow>
      process_key h patterns mask_configs (key, handler) (text, counts, w) = Inr (text, counts, w))
   \<and> (disabled mask_configs key \<and> key \<in> fst ` set PII_HANDLERS
        \<and> process_text h text patterns mask_configs w = Inr ((text', counts'), w') \<longrightarrow>
      map_of counts' key = Some 0)
   \<and> (disabled mask_configs key \<longrightarrow>
      process_text_with (with_handler key other PII_HANDLERS) h text patterns mask_configs w =
      process_text h text patterns mask_configs w)
   \<and> ((\<forall>k. disabled mask_configs k) \<longrightarrow>
      process_text h text patterns mask_configs w =
        Inr ((text, map (\<lambda>kh. (fst kh, 0)) PII_HANDLERS), w))"
proof (intro conjI impI)
  assume "disabled mask_configs key"
  then show "process_key h patterns mask_configs (key, handler) (text, counts, w) = Inr (text, counts, w)"
    by (rule process_key_disabled)
next
  assume a: "disabled mask_configs key \<and> key \<in> fst ` set PII_HANDLERS
        \<and> process_text h text patterns mask_configs w = Inr ((text', counts'), w')"
  then have "process_keys h patterns mask_configs PII_HANDLERS
      (text, map (\<lambda>kh. (fst kh, 0)) PII_HANDLERS, w) = Inr (text', counts', w')"
    by (auto simp: process_text_def process_text_with_def split: sum.splits)
  from process_keys_disabled_count [OF _ this, of key] a
  show "map_of counts' key = Some 0"
    by (simp add: initial_count)
next
  assume "disabled mask_configs key"
  then show "process_text_with (with_handler key other PII_HANDLERS) h text patterns mask_configs w =
      process_text h text patterns mask_configs w"
    by (simp add: process_text_def process_text_with_def process_keys_with_handler with_handler_keys)
next
  assume "\<forall>k. disabled mask_configs k"
  then show "process_text h text patterns mask_configs w =
        Inr ((text, map (\<lambda>kh. (fst kh, 0)) PII_HANDLERS), w)"
    by (simp add: process_text_def process_text_with_def process_keys_all_disabled)
qed

theorem disabled_category_is_skipped_witness:
  "process_text (\<lambda>b. []) ''a@x.com 9876543210'' None
      (Some (\<lambda>key. Some \<lparr>enabled = False, strategy = Some ''partial'', mask_char = Some ''*''\<rparr>))
      \<lparr>ctx = NoContext, rng = (\<lambda>i. 0), drawn = 0\<rparr>
    = Inr ((''a@x.com 9876543210'',
            [(''aadhaar'', 0), (''pan'', 0), (''credit_card'', 0), (''email'', 0), (''passport'', 0),
             (''driving_license'', 0), (''phone'', 0), (''person'', 0), (''voter_id'', 0), (''dob'', 0)]),
           \<lparr>ctx = NoContext, rng = (\<lambda>i. 0), drawn = 0\<rparr>)"
proof -
  let ?c = "Some (\<lambda>key. Some \<lparr>enabled = False, strategy = Some ''partial'', mask_char = Some ''*''\<rparr>)"
  have d: "\<forall>k. disabled ?c k"
    by (simp add: disabled_def get_opt_def)
  have z: "map (\<lambda>kh. (fst kh, 0::nat)) PII_HANDLERS =
      [(''aadhaar'', 0), (''pan'', 0), (''credit_card'', 0), (''email'', 0), (''passport'', 0),
       (''driving_license'', 0), (''phone'', 0), (''person'', 0), (''voter_id'', 0), (''dob'', 0)]"
    by (simp add: PII_HANDLERS_def)
  from disabled_category_is_skipped [of ?c "''email''" "\<lambda>b. []" None pseudo_email
      "''a@x.com 9876543210''" "[]" "\<lparr>ctx = NoContext, rng = (\<lambda>i. 0), drawn = 0\<rparr>"] d z
  show ?thesis by simp
qed

section \<open>What the matcher consumes\<close>

lemma take_char_suffix:
  "st' \<in> set (take_char P st) \<Longrightarrow> \<exists>c. rest st = c # rest st' \<and> P c"
  by (cases "rest st") (auto simp: take_char_def split: if_splits)

lemma rep_max_suffix:
  "(\<And>s s'. s' \<in> set (body s) \<Longrightarrow> \<exists>u. rest s = u @ rest s') \<Longrightarrow>
   st' \<in> set (rep_max body hi st) \<Longrightarrow> \<exists>u. rest st = u @ rest st'"
proof (induction body hi st arbitrary: st' rule: rep_max.induct)
  case (1 body hi st)
  show ?case
  proof (cases "hi = Some 0")
    case True
    with "1.prems"(2) show ?thesis by (subst (asm) rep_max.simps) simp
  next
    case False
    with "1.prems"(2) consider "st' = st"
      | s1 where "s1 \<in> set (body st)" "length (rest s1) < length (rest st)"
          "st' \<in> set (rep_max body (dec_max hi) s1)"
      | s1 where "s1 \<in> set (body st)" "st' = s1"
      by (auto simp: rep_max.simps [of body hi st] split: if_splits)
    then show ?thesis
    proof cases
      case 1
      then show ?thesis by simp
    next
      case 2
      from "1.IH" [OF False 2(1) 2(2) "1.prems"(1) 2(3)] obtain u where "rest s1 = u @ rest st'"
        by blast
      moreover from "1.prems"(1) [OF 2(1)] obtain v where "rest st = v @ rest s1" by blast
      ultimately show ?thesis by simp
    next
      case 3
      with "1.prems"(1) show ?thesis by blast
    qed
  qed
qed

lemma rep_min_suffix:
  "(\<And>s s'. s' \<in> set (body s) \<Longrightarrow> \<exists>u. rest s = u @ rest s') \<Longrightarrow>
   st' \<in> set (rep_min body lo hi st) \<Longrightarrow> \<exists>u. rest st = u @ rest st'"
proof (induction lo arbitrary: hi st)
  case 0
  from "0.prems"(2) have "st' \<in> set (rep_max body hi st)" by simp
  with "0.prems"(1) show ?case by (rule rep_max_suffix)
next
  case (Suc lo)
  from Suc.prems(2) obtain s1 where a: "s1 \<in> set (body st)"
    and b: "st' \<in> set (rep_min body lo (dec_max hi) s1)" by auto
  from Suc.IH [OF Suc.prems(1) b] obtain u where "rest s1 = u @ rest st'" by blast
  moreover from Suc.prems(1) [OF a] obtain v where "rest st = v @ rest s1" by blast
  ultimately show ?case by simp
qed

lemma matches_suffix: "st' \<in> set (matches r st) \<Longrightarrow> \<exists>u. rest st = u @ rest st'"
proof (induction r arbitrary: st st')
  case Eps
  then show ?case by simp
next
  case (Lit c)
  then show ?case by (auto dest: take_char_suffix)
next
  case (In items)
  then show ?case by (auto dest!: take_char_suffix)
next
  case (NotIn items)
  then show ?case by (auto dest!: take_char_suffix)
next
  case WordB
  then show ?case by (simp split: if_splits)
next
  case (Seq a b)
  from Seq.prems obtain s1 where "s1 \<in> set (matches a st)" "st' \<in> set (matches b s1)" by auto
  with Seq.IH obtain u v where "rest st = u @ rest s1" "rest s1 = v @ rest st'" by blast
  then show ?case by simp
next
  case (Alt a b)
  then show ?case by auto
next
  case (Rep lo hi r)
  from Rep.prems have "st' \<in> set (rep_min (matches r) lo hi st)" by simp
  with Rep.IH show ?case by (rule rep_min_suffix)
next
  case (Grp n r)
  from Grp.prems obtain s1 where "s1 \<in> set (matches r st)" "st' = set_cap n st s1" by auto
  with Grp.IH show ?case by (auto simp: set_cap_def)
qed

lemma consumed_suffix: "rest st = u @ rest st' \<Longrightarrow> consumed st st' = u"
  by (simp add: consumed_def)

lemma matches_Seq:
  "st' \<in> set (matches (Seq a b) st) = (\<exists>s1 \<in> set (matches a st). st' \<in> set (matches b s1))"
  by auto

text \<open>Every match of a scan stems from a run of the matcher from a state without groups.\<close>

lemma search_origin:
  "search r adv p s = Some (b, n, g, q) \<Longrightarrow>
   \<exists>st st'. st' \<in> set (matches r st) \<and> caps st = [] \<and> rest st = drop b s
             \<and> n = length (rest st) - length (rest st') \<and> g = caps st'"
proof (induction s arbitrary: adv p b)
  case Nil
  then obtain st' where "first_match r adv p [] = Some st'" "b = 0" "n = 0 - length (rest st')" "g = caps st'"
    by (auto simp: search.simps [of r adv p "[]"] split: option.splits)
  moreover from this have "st' \<in> set (matches r \<lparr>prev = p, rest = [], caps = []\<rparr>)"
    by (auto simp: first_match_def filter_eq_Cons_iff split: list.splits)
  ultimately show ?case by force
next
  case (Cons c cs)
  show ?case
  proof (cases "first_match r adv p (c # cs)")
    case None
    with Cons.prems obtain b0 where s: "search r False (Some c) cs = Some (b0, n, g, q)" and b: "b = Suc b0"
      by (auto simp: search.simps [of r adv p "c # cs"])
    from Cons.IH [OF s] b show ?thesis by simp
  next
    case (Some st')
    with Cons.prems have e: "b = 0" "n = length (c # cs) - length (rest st')" "g = caps st'"
      by (auto simp: search.simps [of r adv p "c # cs"])
    from Some have "st' \<in> set (matches r \<lparr>prev = p, rest = c # cs, caps = []\<rparr>)"
      by (auto simp: first_match_def filter_eq_Cons_iff split: list.splits)
    with e show ?thesis by force
  qed
qed

lemma re_scan_matches_property:
  assumes "\<And>st st'. st' \<in> set (matches r st) \<Longrightarrow> caps st = [] \<Longrightarrow> Q (consumed st st') (caps st')"
  shows "\<forall>(gap, m) \<in> set (fst (re_scan r adv p s)).
           Q (group0 m) (captures m) \<and> ngroups m = rx_groups r"
  using assms
proof (induction r adv p s rule: re_scan.induct)
  case (1 r adv p s)
  note matcher = "1.prems"
  show ?case
  proof (cases "search r adv p s")
    case None
    then show ?thesis by (simp add: re_scan_None)
  next
    case (Some x)
    obtain b n g q where x: "x = (b, n, g, q)" by (cases x)
    from "1.IH" [OF Some, of b "(n, g, q)" n "(g, q)" g q] x matcher
    have ih: "\<forall>(gap, m) \<in> set (fst (re_scan r (n = 0) q (drop (b + n) s))).
           Q (group0 m) (captures m) \<and> ngroups m = rx_groups r" by simp
    from search_origin [of r adv p s b n g q] Some x obtain st st'
      where o: "st' \<in> set (matches r st)" "caps st = []" "rest st = drop b s"
        "n = length (rest st) - length (rest st')" "g = caps st'" by auto
    from matcher [OF o(1,2)] o have "Q (take n (drop b s)) g" by (simp add: consumed_def)
    with ih Some x show ?thesis by (simp add: re_scan_Some)
  qed
qed

section \<open>The email handler without a usable context\<close>

lemma email_match_group1:
  assumes "st' \<in> set (matches EMAIL_PATTERN st)"
  shows "map_of (caps st') 1 = Some (consumed st st') \<and> CHR ''@'' \<in> set (consumed st st')"
proof -
  let ?G2 = "Seq (Grp 2 email_domain) Eps"
  from assms obtain sx where x: "sx \<in> set (matches (Seq email_local (Seq (Lit CHR ''@'') ?G2)) st)"
    and c: "st' = set_cap 1 st sx"
    by (auto simp: EMAIL_PATTERN_def seqs_def split: if_splits)
  from x obtain sa sb where a: "sa \<in> set (matches email_local st)"
    and b: "sb \<in> set (matches (Lit CHR ''@'') sa)" and d: "sx \<in> set (matches ?G2 sb)"
    unfolding matches_Seq by blast
  from matches_suffix [OF a] obtain u1 where u1: "rest st = u1 @ rest sa" ..
  from b have u2: "rest sa = CHR ''@'' # rest sb" by (auto dest: take_char_suffix)
  from matches_suffix [OF d] obtain u3 where u3: "rest sb = u3 @ rest sx" ..
  from u1 u2 u3 have "rest st = (u1 @ CHR ''@'' # u3) @ rest sx" by simp
  then have "consumed st sx = u1 @ CHR ''@'' # u3" by (rule consumed_suffix)
  with c show ?thesis by (simp add: set_cap_def consumed_def)
qed

lemma rsplit1_join:
  assumes "sep \<in> set s"
  shows "fst (rsplit1 sep s) @ [sep] @ snd (rsplit1 sep s) = s"
proof -
  let ?a = "takeWhile (\<lambda>c. c \<noteq> sep) (rev s)"
  from assms have "dropWhile (\<lambda>c. c \<noteq> sep) (rev s) \<noteq> []" by (simp add: dropWhile_eq_Nil_conv)
  then obtain x b where d: "dropWhile (\<lambda>c. c \<noteq> sep) (rev s) = x # b" by (cases "dropWhile (\<lambda>c. c \<noteq> sep) (rev s)") auto
  then have "x = sep" using hd_dropWhile [of "\<lambda>c. c \<noteq> sep" "rev s"] by force
  with d have "rev s = ?a @ sep # b" by (metis takeWhile_dropWhile_id)
  then have s: "s = rev b @ sep # rev ?a" by (metis rev_append rev_rev_ident rev.simps(2) append_Cons append_Nil append_assoc)
  have l: "length s - length (rev ?a) - 1 = length (rev b)"
    by (subst s) simp
  have "take (length (rev b)) s = rev b" by (subst s) simp
  with l have "rsplit1 sep s = (rev b, rev ?a)" by (simp add: rsplit1_def Let_def)
  with s show ?thesis by simp
qed

lemma email_partial_no_context:
  assumes "usable_context (ctx w) = None"
    and "map_of (captures m) 1 = Some (group0 m)" "CHR ''@'' \<in> set (group0 m)" "1 \<le> ngroups m"
  shows "email_partial m w = Inr (''user@'' @ domain_of (group0 m), w)"
  using assms
  by (simp add: email_partial_def match_group_def rsplit1_def domain_of_def Let_def)

lemma email_partial_keeps_world:
  "usable_context (ctx w) = None \<Longrightarrow> email_partial m w = Inr (t, w') \<Longrightarrow> w' = w"
  by (auto simp: email_partial_def split: sum.splits option.splits if_splits prod.splits)

lemma apply_mask_keeps_state:
  assumes "\<And>t \<sigma>'. partial_mask_func m \<sigma> = Inr (t, \<sigma>') \<Longrightarrow> \<sigma>' = \<sigma>"
    and "apply_mask h m strat mchar pii_type partial_mask_func \<sigma> = Inr (t, \<sigma>')"
  shows "\<sigma>' = \<sigma>"
  using assms by (auto simp: apply_mask_def Let_def split: if_splits sum.splits)

lemma re_sub_fold_fixed:
  assumes "\<And>m t \<sigma>'. repl m \<sigma> = Inr (t, \<sigma>') \<Longrightarrow> \<sigma>' = \<sigma>"
    and "re_sub_fold repl ms tail \<sigma> = Inr (out, \<sigma>')"
  shows "\<sigma>' = \<sigma>"
  using assms(2)
proof (induction ms arbitrary: out)
  case Nil
  then show ?case by simp
next
  case (Cons gm ms)
  obtain gap m where gm: "gm = (gap, m)" by (cases gm)
  from Cons.prems obtain t \<sigma>1 out1 where r: "repl m \<sigma> = Inr (t, \<sigma>1)"
    and f: "re_sub_fold repl ms tail \<sigma>1 = Inr (out1, \<sigma>')"
    unfolding gm by (auto split: sum.splits)
  from assms(1) [OF r] f Cons.IH show ?case by simp
qed

lemma re_sub_fold_pure_on:
  assumes "\<And>gap m. (gap, m) \<in> set ms \<Longrightarrow> repl m \<sigma> = Inr (f (group0 m), \<sigma>)"
  shows "re_sub_fold repl ms tail \<sigma> = Inr (rebuild f (ms, tail), \<sigma>)"
  using assms
proof (induction ms)
  case Nil
  show ?case by (simp add: rebuild_def)
next
  case (Cons gm ms)
  obtain gap m where gm: "gm = (gap, m)" by (cases gm)
  from Cons.prems [of gap m] gm have "repl m \<sigma> = Inr (f (group0 m), \<sigma>)" by simp
  moreover have "repl m' \<sigma> = Inr (f (group0 m'), \<sigma>)" if "(gap', m') \<in> set ms" for gap' m'
    using that by (intro Cons.prems [of gap' m']) simp
  then have "re_sub_fold repl ms tail \<sigma> = Inr (rebuild f (ms, tail), \<sigma>)"
    by (rule Cons.IH)
  ultimately show ?case unfolding gm by (simp add: rebuild_def)
qed

lemma pseudo_email_keeps_world:
  assumes "usable_context (ctx w) = None"
    and "pseudo_email h text0 pattern kwargs w = Inr (r, w')"
  shows "w' = w"
proof -
  obtain ms tail where s: "re_scan (pattern_or pattern EMAIL_PATTERN) False None text0 = (ms, tail)"
    by (cases "re_scan (pattern_or pattern EMAIL_PATTERN) False None text0")
  from assms(2) s obtain out where f: "re_sub_fold (email_repl h kwargs) ms tail w = Inr (out, w')"
    by (auto simp: pseudo_email_def re_subn_def split: sum.splits)
  have "\<sigma>' = w" if "email_repl h kwargs m w = Inr (t, \<sigma>')" for m t \<sigma>'
    using that unfolding email_repl_def
    by (rule apply_mask_keeps_state [rotated]) (rule email_partial_keeps_world [OF assms(1)])
  from re_sub_fold_fixed [OF this f] show ?thesis .
qed

lemma pseudo_email_default_no_context:
  assumes "usable_context (ctx w) = None" "get_strategy kwargs = ''partial''"
  shows "pseudo_email h text0 None kwargs w =
     Inr ((rebuild (\<lambda>g. ''user@'' @ domain_of g) (re_scan EMAIL_PATTERN False None text0),
           length (fst (re_scan EMAIL_PATTERN False None text0))), w)"
proof -
  obtain ms tail where s: "re_scan EMAIL_PATTERN False None text0 = (ms, tail)"
    by (cases "re_scan EMAIL_PATTERN False None text0")
  have g: "rx_groups EMAIL_PATTERN = 2"
    by (simp add: EMAIL_PATTERN_def email_local_def email_domain_def seqs_def plus_def at_least_def)
  have "\<forall>(gap, m) \<in> set (fst (re_scan EMAIL_PATTERN False None text0)).
      (map_of (captures m) 1 = Some (group0 m) \<and> CHR ''@'' \<in> set (group0 m))
      \<and> ngroups m = rx_groups EMAIL_PATTERN"
    by (rule re_scan_matches_property) (rule email_match_group1)
  with s g have p: "map_of (captures m) 1 = Some (group0 m) \<and> CHR ''@'' \<in> set (group0 m) \<and> ngroups m = 2"
    if "(gap, m) \<in> set ms" for gap m
    using that by auto
  have "email_repl h kwargs m w = Inr (''user@'' @ domain_of (group0 m), w)"
    if "(gap, m) \<in> set ms" for gap m
    using p [OF that] assms
    by (simp add: email_repl_def apply_mask_def email_partial_no_context)
  from re_sub_fold_pure_on [of ms "email_repl h kwargs" w "\<lambda>g. ''user@'' @ domain_of g", OF this]
  show ?thesis
    by (simp add: pseudo_email_def re_subn_def pattern_or_def s)
qed

lemma email_matches_have_at:
  "\<forall>g \<in> set (matched_texts (re_scan EMAIL_PATTERN False None text0)). CHR ''@'' \<in> set g"
proof -
  have "\<forall>(gap, m) \<in> set (fst (re_scan EMAIL_PATTERN False None text0)).
      (map_of (captures m) 1 = Some (group0 m) \<and> CHR ''@'' \<in> set (group0 m))
      \<and> ngroups m = rx_groups EMAIL_PATTERN"
    by (rule re_scan_matches_property) (rule email_match_group1)
  then show ?thesis by (auto simp: matched_texts_def)
qed

lemma domain_of_join: "CHR ''@'' \<in> set g \<Longrightarrow> \<exists>local. g = local @ ''@'' @ domain_of g"
  using rsplit1_join [of "CHR ''@''" g] by (auto simp: rsplit1_def domain_of_def Let_def) metis

lemma re_sub_fold_by:
  assumes "\<And>gap m. (gap, m) \<in> set ms \<Longrightarrow> repl m \<sigma> = Inr (f m, \<sigma>)"
  shows "re_sub_fold repl ms tail \<sigma> = Inr (rebuild_by f (ms, tail), \<sigma>)"
  using assms
proof (induction ms)
  case Nil
  show ?case by (simp add: rebuild_by_def)
next
  case (Cons gm ms)
  obtain gap m where gm: "gm = (gap, m)" by (cases gm)
  from Cons.prems [of gap m] gm have "repl m \<sigma> = Inr (f m, \<sigma>)" by simp
  moreover have "repl m' \<sigma> = Inr (f m', \<sigma>)" if "(gap', m') \<in> set ms" for gap' m'
    using that by (intro Cons.prems [of gap' m']) simp
  then have "re_sub_fold repl ms tail \<sigma> = Inr (rebuild_by f (ms, tail), \<sigma>)"
    by (rule Cons.IH)
  ultimately show ?case unfolding gm by (simp add: rebuild_by_def)
qed

text \<open>
  What the replacement callback does with one match, whatever the pattern that produced
  it, when there is no usable context: a match whose group 1 is an address becomes
  \<open>user@domain\<close>; the other matches are not addresses for the handler.
\<close>

lemma email_repl_address:
  assumes "usable_context (ctx w) = None" "get_strategy kwargs = ''partial''"
    and "match_group m 1 = Inr (Some g)" "CHR ''@'' \<in> set g"
  shows "email_repl h kwargs m w = Inr (''user@'' @ domain_of g, w)"
  using assms
  by (simp add: email_repl_def apply_mask_def email_partial_def rsplit1_def domain_of_def Let_def)

lemma email_repl_not_an_address:
  assumes "usable_context (ctx w) = None" "get_strategy kwargs = ''partial''"
  shows "match_group m 1 = Inl e \<Longrightarrow> email_repl h kwargs m w = Inl e"
    and "match_group m 1 = Inr None \<Longrightarrow> email_repl h kwargs m w = Inl TypeError"
    and "match_group m 1 = Inr (Some g) \<Longrightarrow> CHR ''@'' \<notin> set g \<Longrightarrow>
         email_repl h kwargs m w = Inr (''Invalid Email Match: '' @ g, w)"
  using assms by (simp_all add: email_repl_def apply_mask_def email_partial_def)

lemma email_repl_user_at_domain:
  assumes "usable_context (ctx w) = None" "get_strategy kwargs = ''partial''"
    and "address_of m \<noteq> None"
  shows "email_repl h kwargs m w = Inr (user_at_domain m, w)"
proof -
  from assms(3) obtain g where g: "match_group m 1 = Inr (Some g)" "CHR ''@'' \<in> set g"
    by (auto simp: address_of_def split: sum.splits option.splits if_splits)
  then have "user_at_domain m = ''user@'' @ domain_of g"
    by (simp add: user_at_domain_def address_of_def)
  with email_repl_address [OF assms(1,2) g] show ?thesis by simp
qed

lemma pseudo_email_addresses_no_context:
  assumes "usable_context (ctx w) = None" "get_strategy kwargs = ''partial''"
    and "\<forall>(gap, m) \<in> set (fst (re_scan (pattern_or pattern EMAIL_PATTERN) False None text0)).
           address_of m \<noteq> None"
  shows "pseudo_email h text0 pattern kwargs w =
     Inr ((rebuild_by user_at_domain (re_scan (pattern_or pattern EMAIL_PATTERN) False None text0),
           length (fst (re_scan (pattern_or pattern EMAIL_PATTERN) False None text0))), w)"
proof -
  obtain ms tail where s: "re_scan (pattern_or pattern EMAIL_PATTERN) False None text0 = (ms, tail)"
    by (cases "re_scan (pattern_or pattern EMAIL_PATTERN) False None text0")
  have "email_repl h kwargs m w = Inr (user_at_domain m, w)" if "(gap, m) \<in> set ms" for gap m
    using that assms(3) s by (intro email_repl_user_at_domain [OF assms(1,2)]) auto
  from re_sub_fold_by [of ms "email_repl h kwargs" w user_at_domain, OF this]
  show ?thesis
    by (simp add: pseudo_email_def re_subn_def s)
qed

lemma email_default_matches_are_addresses:
  "\<forall>(gap, m) \<in> set (fst (re_scan EMAIL_PATTERN False None text0)). address_of m = Some (group0 m)"
proof -
  have g: "rx_groups EMAIL_PATTERN = 2"
    by (simp add: EMAIL_PATTERN_def email_local_def email_domain_def seqs_def plus_def at_least_def)
  have "\<forall>(gap, m) \<in> set (fst (re_scan EMAIL_PATTERN False None text0)).
      (map_of (captures m) 1 = Some (group0 m) \<and> CHR ''@'' \<in> set (group0 m))
      \<and> ngroups m = rx_groups EMAIL_PATTERN"
    by (rule re_scan_matches_property) (rule email_match_group1)
  with g show ?thesis by (auto simp: address_of_def match_group_def)
qed

text \<open>
  Claim C10. The email handler is run with the partial strategy and a run context that is
  \<open>None\<close> or not a dictionary, with the default pattern or any override. Then no
  pseudonymizer is created or consulted: the world is returned as it was. The address of a
  match is its group 1, as the handler reads it. Every match whose group 1 is an address
  \<open>local@domain\<close> is replaced by \<open>user@domain\<close>, the domain being the text after the last
  \<open>@\<close>, so that addresses of one domain collapse to one replacement. When every match of
  the pattern holds an address, the handler returns the text with each match so replaced,
  and the number of matches. Every match of the default pattern is an address, so with the
  default pattern this is the result for every text.
\<close>

theorem email_without_context:
  "(ctx w = NoContext \<or> ctx w = OtherContext b) \<and> get_strategy kwargs = ''partial'' \<longrightarrow>
     (\<forall>r w'. pseudo_email h text0 pattern kwargs w = Inr (r, w') \<longrightarrow> w' = w)
     \<and> (\<forall>m g. match_group m 1 = Inr (Some g) \<and> CHR ''@'' \<in> set g \<longrightarrow>
           email_repl h kwargs m w = Inr (''user@'' @ domain_of g, w)
           \<and> (\<exists>local. g = local @ ''@'' @ domain_of g))
     \<and> ((\<forall>(gap, m) \<in> set (fst (re_scan (pattern_or pattern EMAIL_PATTERN) False None text0)).
            address_of m \<noteq> None) \<longrightarrow>
         pseudo_email h text0 pattern kwargs w =
           Inr ((rebuild_by user_at_domain (re_scan (pattern_or pattern EMAIL_PATTERN) False None text0),
                 length (fst (re_scan (pattern_or pattern EMAIL_PATTERN) False None text0))), w))
     \<and> (\<forall>(gap, m) \<in> set (fst (re_scan EMAIL_PATTERN False None text0)).
           address_of m = Some (group0 m))
     \<and> pseudo_email h text0 None kwargs w =
         Inr ((rebuild (\<lambda>g. ''user@'' @ domain_of g) (re_scan EMAIL_PATTERN False None text0),
               length (fst (re_scan EMAIL_PATTERN False None text0))), w)
     \<and> (\<forall>g \<in> set (matched_texts (re_scan EMAIL_PATTERN False None text0)).
           \<exists>local. g = local @ ''@'' @ domain_of g)"
proof (intro impI)
  assume a: "(ctx w = NoContext \<or> ctx w = OtherContext b) \<and> get_strategy kwargs = ''partial''"
  then have u: "usable_context (ctx w) = None" by (auto simp: usable_context_def)
  from a have s: "get_strategy kwargs = ''partial''" by simp
  from pseudo_email_keeps_world [OF u]
  have 1: "\<forall>r w'. pseudo_email h text0 pattern kwargs w = Inr (r, w') \<longrightarrow> w' = w" by blast
  from email_repl_address [OF u s] domain_of_join
  have 2: "\<forall>m g. match_group m 1 = Inr (Some g) \<and> CHR ''@'' \<in> set g \<longrightarrow>
           email_repl h kwargs m w = Inr (''user@'' @ domain_of g, w)
           \<and> (\<exists>local. g = local @ ''@'' @ domain_of g)" by blast
  from pseudo_email_addresses_no_context [OF u s]
  have 3: "(\<forall>(gap, m) \<in> set (fst (re_scan (pattern_or pattern EMAIL_PATTERN) False None text0)).
            address_of m \<noteq> None) \<longrightarrow>
         pseudo_email h text0 pattern kwargs w =
           Inr ((rebuild_by user_at_domain (re_scan (pattern_or pattern EMAIL_PATTERN) False None text0),
                 length (fst (re_scan (pattern_or pattern EMAIL_PATTERN) False None text0))), w)"
    by blast
  note 4 = email_default_matches_are_addresses [of text0]
  note 5 = pseudo_email_default_no_context [OF u s, of h text0]
  from email_matches_have_at domain_of_join
  have 6: "\<forall>g \<in> set (matched_texts (re_scan EMAIL_PATTERN False None text0)).
           \<exists>local. g = local @ ''@'' @ domain_of g" by blast
  from 1 2 3 4 5 6
  show "(\<forall>r w'. pseudo_email h text0 pattern kwargs w = Inr (r, w') \<longrightarrow> w' = w)
     \<and> (\<forall>m g. match_group m 1 = Inr (Some g) \<and> CHR ''@'' \<in> set g \<longrightarrow>
           email_repl h kwargs m w = Inr (''user@'' @ domain_of g, w)
           \<and> (\<exists>local. g = local @ ''@'' @ domain_of g))
     \<and> ((\<forall>(gap, m) \<in> set (fst (re_scan (pattern_or pattern EMAIL_PATTERN) False None text0)).
            address_of m \<noteq> None) \<longrightarrow>
         pseudo_email h text0 pattern kwargs w =
           Inr ((rebuild_by user_at_domain (re_scan (pattern_or pattern EMAIL_PATTERN) False None text0),
                 length (fst (re_scan (pattern_or pattern EMAIL_PATTERN) False None text0))), w))
     \<and> (\<forall>(gap, m) \<in> set (fst (re_scan EMAIL_PATTERN False None text0)).
           address_of m = Some (group0 m))
     \<and> pseudo_email h text0 None kwargs w =
         Inr ((rebuild (\<lambda>g. ''user@'' @ domain_of g) (re_scan EMAIL_PATTERN False None text0),
               length (fst (re_scan EMAIL_PATTERN False None text0))), w)
     \<and> (\<forall>g \<in> set (matched_texts (re_scan EMAIL_PATTERN False None text0)).
           \<exists>local. g = local @ ''@'' @ domain_of g)"
    by (intro conjI)
qed

theorem email_without_context_witness:
  "pseudo_email (\<lambda>b. []) ''a@x.com, b@x.com'' None
      \<lparr>enabled = True, strategy = Some ''partial'', mask_char = Some ''*''\<rparr>
      \<lparr>ctx = NoContext, rng = (\<lambda>i. 0), drawn = 0\<rparr>
    = Inr ((''user@x.com, user@x.com'', 2), \<lparr>ctx = NoContext, rng = (\<lambda>i. 0), drawn = 0\<rparr>)
   \<and> pseudo_email (\<lambda>b. []) ''<a@x.com> <b@x.com>''
      (Some (seqs [Lit CHR ''<'', Grp 1 (seqs [plus lower_az, Lit CHR ''@'',
                     plus (In [Range CHR ''a'' CHR ''z'', Ch CHR ''.''])]), Lit CHR ''>'']))
      \<lparr>enabled = True, strategy = Some ''partial'', mask_char = Some ''*''\<rparr>
      \<lparr>ctx = OtherContext True, rng = (\<lambda>i. 0), drawn = 0\<rparr>
    = Inr ((''user@x.com user@x.com'', 2), \<lparr>ctx = OtherContext True, rng = (\<lambda>i. 0), drawn = 0\<rparr>)"
proof -
  let ?k = "\<lparr>enabled = True, strategy = Some ''partial'', mask_char = Some ''*''\<rparr>"
  let ?w = "\<lparr>ctx = NoContext, rng = (\<lambda>i. 0), drawn = 0\<rparr>"
  let ?v = "\<lparr>ctx = OtherContext True, rng = (\<lambda>i. 0), drawn = 0\<rparr>"
  let ?p = "seqs [Lit CHR ''<'', Grp 1 (seqs [plus lower_az, Lit CHR ''@'',
                     plus (In [Range CHR ''a'' CHR ''z'', Ch CHR ''.''])]), Lit CHR ''>'']"
  have s: "re_scan EMAIL_PATTERN False None ''a@x.com, b@x.com'' =
      ([([], \<lparr>group0 = ''a@x.com'', captures = [(1, ''a@x.com''), (2, ''x.com'')], ngroups = 2\<rparr>),
        ('', '', \<lparr>group0 = ''b@x.com'', captures = [(1, ''b@x.com''), (2, ''x.com'')], ngroups = 2\<rparr>)], [])"
    by code_simp
  have t: "re_scan ?p False None ''<a@x.com> <b@x.com>'' =
      ([([], \<lparr>group0 = ''<a@x.com>'', captures = [(1, ''a@x.com'')], ngroups = 1\<rparr>),
        ('' '', \<lparr>group0 = ''<b@x.com>'', captures = [(1, ''b@x.com'')], ngroups = 1\<rparr>)], [])"
    by code_simp
  have d: "domain_of ''a@x.com'' = ''x.com''" "domain_of ''b@x.com'' = ''x.com''"
    by (simp_all add: domain_of_def)
  have g: "get_strategy ?k = ''partial''"
    by (simp add: get_strategy_def)
  from email_without_context [of ?w True ?k "\<lambda>b. []" "''a@x.com, b@x.com''" None] g
  have 1: "pseudo_email (\<lambda>b. []) ''a@x.com, b@x.com'' None ?k ?w = Inr ((''user@x.com, user@x.com'', 2), ?w)"
    by (simp add: s d rebuild_def)
  have o: "pattern_or (Some ?p) EMAIL_PATTERN = ?p"
    by (simp add: pattern_or_def)
  have a: "\<forall>(gap, m) \<in> set (fst (re_scan ?p False None ''<a@x.com> <b@x.com>'')). address_of m \<noteq> None"
    unfolding t by (simp add: address_of_def match_group_def)
  have r: "rebuild_by user_at_domain (re_scan ?p False None ''<a@x.com> <b@x.com>'') = ''user@x.com user@x.com''"
    unfolding t by (simp add: rebuild_by_def user_at_domain_def address_of_def match_group_def d)
  have l: "length (fst (re_scan ?p False None ''<a@x.com> <b@x.com>'')) = 2"
    unfolding t by simp
  from email_without_context [of ?v True ?k "\<lambda>b. []" "''<a@x.com> <b@x.com>''" "Some ?p"] g
  have "(\<forall>(gap, m) \<in> set (fst (re_scan (pattern_or (Some ?p) EMAIL_PATTERN) False None ''<a@x.com> <b@x.com>'')).
            address_of m \<noteq> None) \<longrightarrow>
         pseudo_email (\<lambda>b. []) ''<a@x.com> <b@x.com>'' (Some ?p) ?k ?v =
           Inr ((rebuild_by user_at_domain (re_scan (pattern_or (Some ?p) EMAIL_PATTERN) False None ''<a@x.com> <b@x.com>''),
                 length (fst (re_scan (pattern_or (Some ?p) EMAIL_PATTERN) False None ''<a@x.com> <b@x.com>''))), ?v)"
    by simp
  with a have 2: "pseudo_email (\<lambda>b. []) ''<a@x.com> <b@x.com>'' (Some ?p) ?k ?v = Inr ((''user@x.com user@x.com'', 2), ?v)"
    unfolding o r l by simp
  from 1 2 show ?thesis by (rule conjI)
qed

section \<open>The pseudonymizers of a run context\<close>

lemma context_pseudonymize_other:
  assumes "context_pseudonymize key d ks = Inr (aliases, d')" "k \<noteq> key"
  shows "map_of d' k = map_of d k"
  using assms
  by (auto simp: context_pseudonymize_def setdefault_def map_of_dict_set map_add_def
      split: option.splits pyval.splits sum.splits if_splits)

lemma usable_context_dict: "usable_context c = Some d \<Longrightarrow> c = DictContext d"
  by (auto simp: usable_context_def split: run_context.splits if_splits)

lemma email_partial_other:
  assumes "email_partial m w = Inr (t, w')" "k \<noteq> ''email_anonymizer''"
  shows "ctx_lookup w' k = ctx_lookup w k"
proof (cases "usable_context (ctx w)")
  case None
  from email_partial_keeps_world [OF None assms(1)] show ?thesis by simp
next
  case (Some d)
  from assms(1) Some consider "w' = w"
    | als d' x where "context_pseudonymize ''email_anonymizer'' d [x] = Inr (als, d')"
        "w' = w\<lparr>ctx := DictContext d'\<rparr>"
    by (auto simp: email_partial_def split: sum.splits option.splits if_splits prod.splits)
  then show ?thesis
  proof cases
    case 1
    then show ?thesis by simp
  next
    case 2
    from context_pseudonymize_other [OF 2(1) assms(2)] 2(2) usable_context_dict [OF Some]
    show ?thesis by (simp add: ctx_lookup_def)
  qed
qed

lemma person_partial_other:
  assumes "person_partial kwargs m w = Inr (t, w')" "k \<noteq> ''person_anonymizer''"
  shows "ctx_lookup w' k = ctx_lookup w k"
proof (cases "usable_context (ctx w)")
  case None
  with assms(1) have "w' = w"
    by (auto simp: person_partial_def Let_def split: sum.splits)
  then show ?thesis by simp
next
  case (Some d)
  with assms(1) obtain als d'
    where c: "context_pseudonymize ''person_anonymizer'' d (split (group0 m)) = Inr (als, d')"
      and w: "w' = w\<lparr>ctx := DictContext d'\<rparr>"
    by (auto simp: person_partial_def Let_def split: sum.splits)
  from context_pseudonymize_other [OF c assms(2)] w usable_context_dict [OF Some]
  show ?thesis by (simp add: ctx_lookup_def)
qed

lemma apply_mask_invariant:
  assumes "\<And>t \<sigma>'. partial_mask_func m \<sigma> = Inr (t, \<sigma>') \<Longrightarrow> I \<sigma>' = I \<sigma>"
    and "apply_mask h m strat mchar pii_type partial_mask_func \<sigma> = Inr (t, \<sigma>')"
  shows "I \<sigma>' = I \<sigma>"
  using assms by (auto simp: apply_mask_def Let_def split: if_splits sum.splits)

lemma re_subn_invariant:
  assumes "\<And>m \<sigma> t \<sigma>'. repl m \<sigma> = Inr (t, \<sigma>') \<Longrightarrow> I \<sigma>' = I \<sigma>"
    and "re_subn p repl text0 \<sigma> = Inr (r, \<sigma>')"
  shows "I \<sigma>' = I \<sigma>"
proof -
  obtain ms tail where s: "re_scan p False None text0 = (ms, tail)"
    by (cases "re_scan p False None text0")
  from assms(2) s obtain out where "re_sub_fold repl ms tail \<sigma> = Inr (out, \<sigma>')"
    by (auto simp: re_subn_def split: sum.splits)
  with assms(1) show ?thesis by (rule re_sub_fold_invariant)
qed

lemma outcome_Inr:
  "outcome r = Inr (x, c, n) \<Longrightarrow> \<exists>w. r = Inr (x, w) \<and> ctx w = c \<and> drawn w = n"
  by (auto simp: outcome_def split: sum.splits)

text \<open>
  Claim C4, as amended. Within one run context the email category and the person-name
  category keep their pseudonymizers under different keys: a run of the email handler
  leaves the entry of the person-name pseudonymizer (its mapping and its counter) as it is,
  and a run of the person-name handler leaves the entry of the email pseudonymizer as it
  is, for every text, pattern and strategy.
\<close>

theorem categories_keep_separate_pseudonymizers:
  "(pseudo_email h text0 pattern kwargs w = Inr (r, w') \<longrightarrow>
      ctx_lookup w' ''person_anonymizer'' = ctx_lookup w ''person_anonymizer'')
   \<and> (mask_person h text0 pattern kwargs w = Inr (r, w') \<longrightarrow>
      ctx_lookup w' ''email_anonymizer'' = ctx_lookup w ''email_anonymizer'')"
proof (intro conjI impI)
  assume a: "pseudo_email h text0 pattern kwargs w = Inr (r, w')"
  have "ctx_lookup \<sigma>' ''person_anonymizer'' = ctx_lookup \<sigma> ''person_anonymizer''"
    if "email_repl h kwargs m \<sigma> = Inr (t, \<sigma>')" for m \<sigma> t \<sigma>'
    using that unfolding email_repl_def
    by (rule apply_mask_invariant [rotated]) (rule email_partial_other, assumption, simp)
  from re_subn_invariant [of "email_repl h kwargs" "\<lambda>w. ctx_lookup w ''person_anonymizer''", OF this]
    a
  show "ctx_lookup w' ''person_anonymizer'' = ctx_lookup w ''person_anonymizer''"
    by (simp add: pseudo_email_def)
next
  assume a: "mask_person h text0 pattern kwargs w = Inr (r, w')"
  have "ctx_lookup \<sigma>' ''email_anonymizer'' = ctx_lookup \<sigma> ''email_anonymizer''"
    if "person_repl h kwargs m \<sigma> = Inr (t, \<sigma>')" for m \<sigma> t \<sigma>'
    using that unfolding person_repl_def
    by (rule apply_mask_invariant [rotated]) (rule person_partial_other, assumption, simp)
  from re_subn_invariant [of "person_repl h kwargs" "\<lambda>w. ctx_lookup w ''email_anonymizer''", OF this]
    a
  show "ctx_lookup w' ''email_anonymizer'' = ctx_lookup w ''email_anonymizer''"
    by (simp add: mask_person_def)
qed

theorem categories_keep_separate_pseudonymizers_witness:
  "\<exists>w'. mask_person (\<lambda>b. []) ''John Smith'' None
            \<lparr>enabled = True, strategy = Some ''partial'', mask_char = Some ''*''\<rparr>
            \<lparr>ctx = DictContext [(''email_anonymizer'',
                 Anonymizer \<lparr>mapping = [(''a'', ''user1'')], counter = 2\<rparr>)],
              rng = (\<lambda>i. 0), drawn = 0\<rparr> = Inr ((''user1 user2'', 1), w')
        \<and> ctx_lookup w' ''email_anonymizer''
            = Some (Anonymizer \<lparr>mapping = [(''a'', ''user1'')], counter = 2\<rparr>)"
proof -
  let ?k = "\<lparr>enabled = True, strategy = Some ''partial'', mask_char = Some ''*''\<rparr>"
  let ?w = "\<lparr>ctx = DictContext [(''email_anonymizer'',
                 Anonymizer \<lparr>mapping = [(''a'', ''user1'')], counter = 2\<rparr>)],
              rng = (\<lambda>i. 0), drawn = 0\<rparr>"
  have "outcome (mask_person (\<lambda>b. []) ''John Smith'' None ?k ?w) =
      Inr ((''user1 user2'', 1),
           DictContext [(''email_anonymizer'', Anonymizer \<lparr>mapping = [(''a'', ''user1'')], counter = 2\<rparr>),
                        (''person_anonymizer'',
                         Anonymizer \<lparr>mapping = [(''John'', ''user1''), (''Smith'', ''user2'')], counter = 3\<rparr>)],
           0)"
    by code_simp
  from outcome_Inr [OF this] obtain w'
    where e: "mask_person (\<lambda>b. []) ''John Smith'' None ?k ?w = Inr ((''user1 user2'', 1), w')"
    by blast
  from categories_keep_separate_pseudonymizers [of "\<lambda>b. []" "''John Smith''" None ?k ?w
      "(''user1 user2'', 1)" w'] e
  have "ctx_lookup w' ''email_anonymizer'' = ctx_lookup ?w ''email_anonymizer''" by blast
  then have "ctx_lookup w' ''email_anonymizer''
      = Some (Anonymizer \<lparr>mapping = [(''a'', ''user1'')], counter = 2\<rparr>)"
    by (simp add: ctx_lookup_def)
  with e show ?thesis by blast
qed

text \<open>
  Claim C4 as stated fails: in one run context the alias \<open>user1\<close> is produced for the
  email category and again for the person-name category.
\<close>

theorem alias_shared_by_both_categories:
  "outcome (pseudo_email (\<lambda>b. []) ''a@x.com'' None
      \<lparr>enabled = True, strategy = Some ''partial'', mask_char = Some ''*''\<rparr>
      \<lparr>ctx = DictContext [(''run'', Opaque)], rng = (\<lambda>i. 0), drawn = 0\<rparr>)
    = Inr ((''user1@x.com'', 1),
           DictContext [(''run'', Opaque),
             (''email_anonymizer'', Anonymizer \<lparr>mapping = [(''a'', ''user1'')], counter = 2\<rparr>)], 0)
   \<and> outcome (mask_person (\<lambda>b. []) ''John Smith'' None
      \<lparr>enabled = True, strategy = Some ''partial'', mask_char = Some ''*''\<rparr>
      \<lparr>ctx = DictContext [(''run'', Opaque),
             (''email_anonymizer'', Anonymizer \<lparr>mapping = [(''a'', ''user1'')], counter = 2\<rparr>)],
        rng = (\<lambda>i. 0), drawn = 0\<rparr>)
    = Inr ((''user1 user2'', 1),
           DictContext [(''run'', Opaque),
             (''email_anonymizer'', Anonymizer \<lparr>mapping = [(''a'', ''user1'')], counter = 2\<rparr>),
             (''person_anonymizer'',
              Anonymizer \<lparr>mapping = [(''John'', ''user1''), (''Smith'', ''user2'')], counter = 3\<rparr>)], 0)"
  by code_simp

section \<open>The end-to-end scenario\<close>

text \<open>
  For comparison, the scenario with a run context that already holds an entry, here
  \<open>{'run': object()}\<close>, so that the handlers find it true. The local part of the address
  is replaced by the first alias of the email category and the domain \<open>example.com\<close> is
  kept, the phone digits become \<open>98******10\<close>, and the person pattern matches
  \<open>Contact John Smith\<close>, three tokens, which become the first three aliases of the
  person-name category. A later cell \<open>John Smith\<close>, processed with the same run context,
  receives the same aliases \<open>user2 user3\<close>.
\<close>

lemma scenario_populated_context:
  "outcome (detect_and_deidentify_record h [Some scenario_cell, Some ''John Smith''] None
      (Some all_partial) \<lparr>ctx = DictContext [(''run'', Opaque)], rng = r, drawn = n\<rparr>)
    = Inr (([''user1 user2 user3 at user1@example.com, phone +91-98******10'', ''user2 user3''],
            [(''aadhaar'', 0), (''pan'', 0), (''credit_card'', 0), (''email'', 1), (''passport'', 0),
             (''driving_license'', 0), (''phone'', 1), (''person'', 2), (''voter_id'', 0), (''dob'', 0)]),
           DictContext [(''run'', Opaque),
             (''email_anonymizer'', Anonymizer \<lparr>mapping = [(''john.smith'', ''user1'')], counter = 2\<rparr>),
             (''person_anonymizer'',
              Anonymizer \<lparr>mapping = [(''Contact'', ''user1''), (''John'', ''user2''), (''Smith'', ''user3'')],
                          counter = 4\<rparr>)],
           n)"
  by code_simp

lemma scenario_cell_fresh_context:
  "outcome (process_text h scenario_cell None (Some all_partial)
      \<lparr>ctx = DictContext [], rng = r, drawn = n\<rparr>)
    = Inr ((''C****** J*** S**** at user@example.com, phone +91-98******10'',
            [(''aadhaar'', 0), (''pan'', 0), (''credit_card'', 0), (''email'', 1), (''passport'', 0),
             (''driving_license'', 0), (''phone'', 1), (''person'', 1), (''voter_id'', 0), (''dob'', 0)]),
           DictContext [], n)"
  by code_simp

lemma scenario_batch_fresh_context:
  "outcome (process_rows h None (Some all_partial) [[Some scenario_cell], [Some ''John Smith'']]
      \<lparr>ctx = c, rng = r, drawn = n\<rparr>)
    = Inr (([[''C****** J*** S**** at user@example.com, phone +91-98******10''], [''J*** S****'']],
            \<lparr>rows_processed = 2,
              matches_found =
                [(''aadhaar'', 0), (''pan'', 0), (''credit_card'', 0), (''email'', 1), (''passport'', 0),
                 (''driving_license'', 0), (''phone'', 1), (''person'', 2), (''voter_id'', 0),
                 (''dob'', 0)]\<rparr>),
           DictContext [], n)"
  by code_simp

text \<open>
  Claim C5. The scenario is run as stated: every category enabled with the partial
  strategy, the default patterns, and the fresh run context of a batch, which is the empty
  dictionary. The handlers write \<open>if context and isinstance(context, dict)\<close> before they
  call \<open>context.setdefault\<close>, and the empty dictionary is false in a condition, so no
  pseudonymizer is ever stored in it. The local part of the address becomes \<open>user\<close>, not
  the alias \<open>user1\<close>; the person pattern matches \<open>Contact John Smith\<close>, whose three tokens
  are masked to their initials instead of being replaced by pseudonyms; \<open>John Smith\<close> in a
  later row of the same batch becomes \<open>J*** S****\<close>; and the run context is still empty
  after the batch. The domain is kept and the phone digits become \<open>98******10\<close>. This is
  so for \<open>process_text\<close> on the cell and for the batch loop, whatever the digest function
  and the random generator.
\<close>

theorem scenario_with_fresh_context:
  "outcome (process_text h scenario_cell None (Some all_partial)
      \<lparr>ctx = DictContext [], rng = r, drawn = n\<rparr>)
    = Inr ((''C****** J*** S**** at user@example.com, phone +91-98******10'',
            [(''aadhaar'', 0), (''pan'', 0), (''credit_card'', 0), (''email'', 1), (''passport'', 0),
             (''driving_license'', 0), (''phone'', 1), (''person'', 1), (''voter_id'', 0), (''dob'', 0)]),
           DictContext [], n)
   \<and> outcome (process_rows h None (Some all_partial) [[Some scenario_cell], [Some ''John Smith'']]
      \<lparr>ctx = c, rng = r, drawn = n\<rparr>)
    = Inr (([[''C****** J*** S**** at user@example.com, phone +91-98******10''], [''J*** S****'']],
            \<lparr>rows_processed = 2,
              matches_found =
                [(''aadhaar'', 0), (''pan'', 0), (''credit_card'', 0), (''email'', 1), (''passport'', 0),
                 (''driving_license'', 0), (''phone'', 1), (''person'', 2), (''voter_id'', 0),
                 (''dob'', 0)]\<rparr>),
           DictContext [], n)"
  using scenario_cell_fresh_context [of h r n] scenario_batch_fresh_context [of h c r n]
  by (rule conjI)

end
